theory Spec2Isabelle
  imports Main
begin

section \<open>Mihran's Tetris Mania: the game core of App.jsx\<close>

text \<open>
  The development embeds the game logic of \<^verbatim>\<open>src/src/App.jsx\<close>: the module-level
  geometry functions (\<^verbatim>\<open>rotateMatrixCW\<close>, \<^verbatim>\<open>rotateIconsCW\<close>, \<^verbatim>\<open>collides\<close>, \<^verbatim>\<open>merge\<close>,
  \<^verbatim>\<open>clearLines\<close>, \<^verbatim>\<open>hasLightningInIcons\<close>, \<^verbatim>\<open>randomPiece\<close>) and the actions of the
  \<^verbatim>\<open>App\<close> component (\<^verbatim>\<open>moveLeft\<close>, \<^verbatim>\<open>moveRight\<close>, \<^verbatim>\<open>softDropStep\<close>, \<^verbatim>\<open>rotateAction\<close>,
  \<^verbatim>\<open>hardDrop\<close>, \<^verbatim>\<open>lockAndSpawn\<close>, \<^verbatim>\<open>resetGame\<close>, \<^verbatim>\<open>updateHighScore\<close>, the lightning
  effect, the frame loop and the input handlers).

  Conventions of the embedding.
  \<^item> JavaScript arrays are lists; a \<^verbatim>\<open>for\<close> loop over indices is a \<open>fold\<close> (or
    \<open>list_ex\<close> when the loop returns \<^verbatim>\<open>true\<close> early) over \<open>[0..<n]\<close>.
  \<^item> A bitmask cell is a number, read only for its truthiness (\<open>\<noteq> 0\<close>); an icon is a
    string or \<^verbatim>\<open>null\<close> (\<open>None\<close>); a board cell is an object \<^verbatim>\<open>{color, icon}\<close> or
    \<^verbatim>\<open>null\<close>. Icons are written as the UTF-8 bytes of their one code point; only
    their equality is ever used.
  \<^item> Reading an array element past its end gives \<^verbatim>\<open>undefined\<close>, which every use in the
    program treats like \<^verbatim>\<open>0\<close> or \<^verbatim>\<open>null\<close> (falsy, different from the lightning icon):
    \<open>elem_or\<close> makes that read explicit.
  \<^item> \<^verbatim>\<open>Math.random\<close> is an input: the shape key and the outcome of \<^verbatim>\<open>randIcon\<close> for each
    cell are passed in as a value of type \<open>rnd\<close>.
\<close>

subsection \<open>Constants and data\<close>

abbreviation COLS :: nat where "COLS \<equiv> 10"
abbreviation ROWS :: nat where "ROWS \<equiv> 20"

type_synonym icon = string

definition LIGHTNING :: icon where
  "LIGHTNING = [CHR 0xE2, CHR 0x9A, CHR 0xA1]"

definition ICONS :: "icon list" where
  "ICONS =
    [[CHR 0xE2, CHR 0x98, CHR 0x85], [CHR 0xE2, CHR 0x97, CHR 0x86], [CHR 0xE2, CHR 0x97, CHR 0x8F],
     [CHR 0xE2, CHR 0x96, CHR 0xB2], [CHR 0xE2, CHR 0x99, CHR 0xA5], [CHR 0xE2, CHR 0x99, CHR 0xA3],
     [CHR 0xE2, CHR 0x98, CHR 0x80], [CHR 0xE2, CHR 0x98, CHR 0x82], [CHR 0xE2, CHR 0x9A, CHR 0x99],
     LIGHTNING,
     [CHR 0xE2, CHR 0x9C, CHR 0xBF], [CHR 0xE2, CHR 0x97, CHR 0xBC], [CHR 0xE2, CHR 0xAC, CHR 0xA2]]"

definition NON_LIGHTNING_ICONS :: "icon list" where
  "NON_LIGHTNING_ICONS = filter (\<lambda>x. x \<noteq> LIGHTNING) ICONS"

text \<open>A locked board cell \<^verbatim>\<open>{ color, icon }\<close>; the board is 20 rows of 10 cells.\<close>

record cell =
  cell_color :: string
  cell_icon :: "icon option"

type_synonym board = "cell option list list"

text \<open>
  The keys of \<^verbatim>\<open>SHAPES\<close>. The constructors carry a \<open>K\<close> because \<open>O\<close> is taken by
  relation composition in HOL.
\<close>

datatype key = KI | KJ | KL | KO | KS | KT | KZ

fun shapeColor :: "key \<Rightarrow> string" where
  "shapeColor KI = ''#00BCD4''"
| "shapeColor KJ = ''#3F51B5''"
| "shapeColor KL = ''#FF9800''"
| "shapeColor KO = ''#FFC107''"
| "shapeColor KS = ''#4CAF50''"
| "shapeColor KT = ''#9C27B0''"
| "shapeColor KZ = ''#F44336''"

fun shapeMatrix :: "key \<Rightarrow> nat list list" where
  "shapeMatrix KI = [[0,0,0,0],[1,1,1,1],[0,0,0,0],[0,0,0,0]]"
| "shapeMatrix KJ = [[1,0,0],[1,1,1],[0,0,0]]"
| "shapeMatrix KL = [[0,0,1],[1,1,1],[0,0,0]]"
| "shapeMatrix KO = [[1,1],[1,1]]"
| "shapeMatrix KS = [[0,1,1],[1,1,0],[0,0,0]]"
| "shapeMatrix KT = [[0,1,0],[1,1,1],[0,0,0]]"
| "shapeMatrix KZ = [[1,1,0],[0,1,1],[0,0,0]]"

text \<open>The piece object built by \<^verbatim>\<open>randomPiece\<close>; \<open>pid\<close> is its field \<^verbatim>\<open>id\<close>.\<close>

record piece =
  pid :: int
  key :: key
  color :: string
  matrix :: "nat list list"
  icons :: "icon option list list"
  row :: int
  col :: int

subsection \<open>Array helpers\<close>

definition elem_or :: "'a \<Rightarrow> 'a list \<Rightarrow> nat \<Rightarrow> 'a" where
  "elem_or d xs i = (if i < length xs then xs ! i else d)"

text \<open>The assignment \<^verbatim>\<open>res[i][j] = v\<close> at a position that exists.\<close>

definition put2 :: "'a list list \<Rightarrow> nat \<Rightarrow> nat \<Rightarrow> 'a \<Rightarrow> 'a list list" where
  "put2 res i j v = res[i := (res ! i)[j := v]]"

definition rectangular :: "'a list list \<Rightarrow> nat \<Rightarrow> nat \<Rightarrow> bool" where
  "rectangular m R C = (length m = R \<and> list_all (\<lambda>row. length row = C) m)"

text \<open>The number of truthy cells of a bitmask.\<close>

definition setCells :: "nat list list \<Rightarrow> nat" where
  "setCells m = sum_list (map (\<lambda>row. length (filter (\<lambda>v. v \<noteq> 0) row)) m)"

subsection \<open>Geometry\<close>

definition emptyBoard :: board where
  "emptyBoard = replicate ROWS (replicate COLS None)"

text \<open>
  \<^verbatim>\<open>rotateMatrixCW\<close> and \<^verbatim>\<open>rotateIconsCW\<close> have the same body and differ in the value the
  result is first filled with (\<^verbatim>\<open>0\<close>, \<^verbatim>\<open>null\<close>). \<^verbatim>\<open>m[0].length\<close> on an empty array raises
  a TypeError: the result is \<open>None\<close>.
\<close>

definition rotateCW :: "'a \<Rightarrow> 'a list list \<Rightarrow> 'a list list option" where
  "rotateCW fill m =
     (case m of
        [] \<Rightarrow> None
      | m0 # _ \<Rightarrow>
          (let rows = length m; cols = length m0;
               res = replicate cols (replicate rows fill)
           in Some (fold (\<lambda>r res. fold (\<lambda>c res. put2 res c (rows - 1 - r) (elem_or fill (m ! r) c))
                                       [0..<cols] res)
                         [0..<rows] res)))"

definition rotateMatrixCW :: "nat list list \<Rightarrow> nat list list option" where
  "rotateMatrixCW m = rotateCW 0 m"

definition rotateIconsCW :: "icon option list list \<Rightarrow> icon option list list option" where
  "rotateIconsCW m = rotateCW None m"

text \<open>
  The random input of one \<^verbatim>\<open>randomPiece()\<close> call: the key drawn from \<^verbatim>\<open>ALL_KEYS\<close> and, for
  the cell at each position, the two draws of \<^verbatim>\<open>randIcon\<close> (whether the first is below
  \<^verbatim>\<open>LIGHTNING_PROB\<close>, and the index the second one selects, always below 12).
\<close>

type_synonym rnd = "key \<times> (nat \<Rightarrow> nat \<Rightarrow> bool \<times> nat)"

definition randIcon :: "bool \<times> nat \<Rightarrow> icon" where
  "randIcon d = (if fst d then LIGHTNING else NON_LIGHTNING_ICONS ! snd d)"

text \<open>\<open>seq\<close> is \<^verbatim>\<open>PIECE_SEQ\<close> before the call; the caller stores the new id back.\<close>

definition randomPiece :: "int \<Rightarrow> rnd \<Rightarrow> piece" where
  "randomPiece seq rnd =
     (let m = shapeMatrix (fst rnd);
          ic = map (\<lambda>r. map (\<lambda>c. if m ! r ! c \<noteq> 0 then Some (randIcon (snd rnd r c)) else None)
                            [0..<length (m ! r)])
                   [0..<length m]
      in \<lparr>pid = seq + 1, key = fst rnd, color = shapeColor (fst rnd), matrix = m, icons = ic,
          row = 0, col = (int COLS - int (length (m ! 0))) div 2\<rparr>)"

text \<open>
  \<^verbatim>\<open>collides(board, piece, offR, offC, mat)\<close>; \<open>mat = None\<close> is the default \<^verbatim>\<open>null\<close>. The
  board read \<^verbatim>\<open>board[nr][nc]\<close> happens only for \<open>0 \<le> nr < 20\<close> and \<open>0 \<le> nc < 10\<close>, inside
  every board the program builds.
\<close>

definition collides :: "board \<Rightarrow> piece \<Rightarrow> int \<Rightarrow> int \<Rightarrow> nat list list option \<Rightarrow> bool" where
  "collides board p offR offC mat =
     (let m = (case mat of None \<Rightarrow> matrix p | Some m' \<Rightarrow> m') in
      list_ex (\<lambda>r. list_ex (\<lambda>c.
          elem_or 0 (m ! r) c \<noteq> 0 \<and>
          (let nr = row p + int r + offR; nc = col p + int c + offC in
           nr < 0 \<or> nr \<ge> int ROWS \<or> nc < 0 \<or> nc \<ge> int COLS \<or>
           elem_or None (elem_or [] board (nat nr)) (nat nc) \<noteq> None))
        [0..<length (m ! 0)]) [0..<length m])"

definition merge :: "board \<Rightarrow> piece \<Rightarrow> board" where
  "merge board p =
     (let m = matrix p in
      fold (\<lambda>r newBoard. fold (\<lambda>c newBoard.
          if elem_or 0 (m ! r) c \<noteq> 0 then
            (let br = row p + int r; bc = col p + int c in
             if br \<ge> 0 \<and> br < int ROWS \<and> bc \<ge> 0 \<and> bc < int COLS
             then put2 newBoard (nat br) (nat bc)
                    (Some \<lparr>cell_color = color p, cell_icon = elem_or None (elem_or [] (icons p) r) c\<rparr>)
             else newBoard)
          else newBoard)
        [0..<length (m ! 0)] newBoard) [0..<length m] board)"

text \<open>
  \<^verbatim>\<open>clearLines\<close> returns \<^verbatim>\<open>{ board, cleared }\<close>, here a pair. \<^verbatim>\<open>cleared\<close> is the
  difference \<^verbatim>\<open>ROWS - kept.length\<close>, an integer; \<^verbatim>\<open>Array.from({ length: cleared })\<close> is
  empty when it is not positive.
\<close>

definition clearLines :: "board \<Rightarrow> board \<times> int" where
  "clearLines board =
     (let kept = filter (\<lambda>row. list_ex (\<lambda>cell. cell = None) row) board;
          cleared = int ROWS - int (length kept);
          pad = replicate (nat cleared) (replicate COLS None)
      in (pad @ kept, cleared))"

definition hasLightningInIcons :: "icon option list list \<Rightarrow> bool" where
  "hasLightningInIcons ic =
     list_ex (\<lambda>r. list_ex (\<lambda>c. elem_or None (ic ! r) c = Some LIGHTNING) [0..<length (ic ! 0)])
       [0..<length ic]"

subsection \<open>The component state\<close>

text \<open>
  The initialiser of \<^verbatim>\<open>high\<close>. The stored text is converted by the built-in \<^verbatim>\<open>Number\<close>;
  \<open>item\<close> is \<open>None\<close> when \<^verbatim>\<open>getItem\<close> gives \<^verbatim>\<open>null\<close> or the empty string (then \<^verbatim>\<open>|| 0\<close>
  applies), and otherwise the number the built-in makes of the text. Finite numbers are
  restricted to integers here: a stored fraction is outside the model.
\<close>

datatype jsnum = Finite int | NaN | PosInfinity | NegInfinity

definition loadHigh :: "bool \<Rightarrow> jsnum option \<Rightarrow> int" where
  "loadHigh hasWindow item =
     (if \<not> hasWindow then 0
      else (let saved = (case item of None \<Rightarrow> Finite 0 | Some v \<Rightarrow> v)
            in case saved of Finite n \<Rightarrow> n | _ \<Rightarrow> 0))"

text \<open>
  The state of the component between two events.
  \<^item> \<open>board\<close>, \<open>piece\<close>, \<open>score\<close>, \<open>high\<close>, \<open>gameOver\<close>: the five \<^verbatim>\<open>useState\<close> cells. The refs
    \<^verbatim>\<open>boardRef\<close>, \<^verbatim>\<open>pieceRef\<close> and \<^verbatim>\<open>overRef\<close> are copied from them after every render, so
    between events they hold the same values and are not kept apart.
  \<^item> \<open>awardedRef\<close>: the ref of the lightning effect; \<open>effectDep\<close>: the value of its
    dependency \<^verbatim>\<open>piece?.id\<close> when it last ran (\<open>None\<close> before the first run).
  \<^item> \<open>PIECE_SEQ\<close>: the module-level counter.
  \<^item> \<open>rafHigh\<close>: the value of \<^verbatim>\<open>high\<close> in the first render. The frame loop is installed by
    an effect with an empty dependency list, so the \<^verbatim>\<open>lockAndSpawn\<close> and
    \<^verbatim>\<open>updateHighScore\<close> it calls are those of the first render, which see \<^verbatim>\<open>score = 0\<close>
    and this value of \<^verbatim>\<open>high\<close>.
  \<^item> \<open>holdTimer\<close>: \<open>None\<close> when \<^verbatim>\<open>holdTimer.current\<close> is \<^verbatim>\<open>null\<close>; otherwise the \<^verbatim>\<open>score\<close> and
    \<^verbatim>\<open>high\<close> of the render whose \<^verbatim>\<open>startHoldDown\<close> created the interval: its callback keeps
    calling the \<^verbatim>\<open>softDropStep\<close> of that render.
  The write to \<^verbatim>\<open>localStorage\<close> in \<^verbatim>\<open>updateHighScore\<close> is never read back while the page
  lives, and it is not part of the state.
\<close>

record game =
  board :: board
  piece :: piece
  score :: int
  high :: int
  gameOver :: bool
  awardedRef :: int
  PIECE_SEQ :: int
  effectDep :: "int option"
  rafHigh :: int
  holdTimer :: "(int \<times> int) option"

text \<open>
  \<^verbatim>\<open>updateHighScore(nextScore)\<close> compares with the \<^verbatim>\<open>high\<close> of the render that created the
  function: \<open>chigh\<close>. In the same way \<^verbatim>\<open>lockAndSpawn\<close> reads the \<^verbatim>\<open>score\<close> of its render:
  \<open>cscore\<close>.
\<close>

definition updateHighScore :: "int \<Rightarrow> int \<Rightarrow> game \<Rightarrow> game" where
  "updateHighScore chigh nextScore s = (if nextScore > chigh then s\<lparr>high := nextScore\<rparr> else s)"

text \<open>The piece \<^verbatim>\<open>next\<close> of \<^verbatim>\<open>lockAndSpawn\<close>, with its row and column set again.\<close>

definition spawnNext :: "rnd \<Rightarrow> game \<Rightarrow> piece" where
  "spawnNext rnd s =
     (let next = randomPiece (PIECE_SEQ s) rnd
      in next\<lparr>row := 0, col := (int COLS - int (length (matrix next ! 0))) div 2\<rparr>)"

text \<open>
  The updater given to \<^verbatim>\<open>setScore\<close> is applied where the source calls \<^verbatim>\<open>setScore\<close>. (React
  may also apply it at the next render, after the direct \<^verbatim>\<open>updateHighScore(score)\<close> of the
  game-over branch; both orders give the same state whenever \<open>cscore \<le> chigh\<close>.)
\<close>

definition lockAndSpawn :: "rnd \<Rightarrow> int \<Rightarrow> int \<Rightarrow> board \<Rightarrow> piece \<Rightarrow> game \<Rightarrow> game" where
  "lockAndSpawn rnd cscore chigh currBoard currPiece s =
     (let merged = merge currBoard currPiece;
          clearedBoard = fst (clearLines merged);
          cleared = snd (clearLines merged);
          s1 = (if cleared \<noteq> 0
                then (let ns = score s + cleared in updateHighScore chigh ns (s\<lparr>score := ns\<rparr>))
                else s);
          next = spawnNext rnd s1;
          s2 = s1\<lparr>PIECE_SEQ := pid next\<rparr>
      in if collides clearedBoard next 0 0 None
         then (updateHighScore chigh cscore s2)\<lparr>board := clearedBoard, gameOver := True\<rparr>
         else s2\<lparr>board := clearedBoard, piece := next\<rparr>)"

definition resetGame :: "rnd \<Rightarrow> game \<Rightarrow> game" where
  "resetGame rnd s =
     (let first = randomPiece (PIECE_SEQ s) rnd
      in s\<lparr>board := emptyBoard, piece := first, score := 0, gameOver := False,
           awardedRef := - 1, PIECE_SEQ := pid first\<rparr>)"

subsection \<open>Shared actions\<close>

definition moveLeft :: "game \<Rightarrow> game" where
  "moveLeft s =
     (if \<not> collides (board s) (piece s) 0 (- 1) None
      then s\<lparr>piece := (piece s)\<lparr>col := col (piece s) - 1\<rparr>\<rparr> else s)"

definition moveRight :: "game \<Rightarrow> game" where
  "moveRight s =
     (if \<not> collides (board s) (piece s) 0 1 None
      then s\<lparr>piece := (piece s)\<lparr>col := col (piece s) + 1\<rparr>\<rparr> else s)"

definition softDropStep :: "rnd \<Rightarrow> int \<Rightarrow> int \<Rightarrow> game \<Rightarrow> game" where
  "softDropStep rnd cscore chigh s =
     (let b = board s; p = piece s in
      if \<not> collides b p 1 0 None
      then s\<lparr>piece := (piece s)\<lparr>row := row (piece s) + 1\<rparr>\<rparr>
      else lockAndSpawn rnd cscore chigh b p s)"

text \<open>The loop \<^verbatim>\<open>for (let k of kicks) { if (...) { setPiece(...); break; } }\<close>.\<close>

fun kickLoop ::
  "board \<Rightarrow> piece \<Rightarrow> nat list list \<Rightarrow> icon option list list \<Rightarrow> int list \<Rightarrow> game \<Rightarrow> game" where
  "kickLoop b p rotated rotatedIcons [] s = s"
| "kickLoop b p rotated rotatedIcons (k # ks) s =
     (if \<not> collides b p 0 k (Some rotated)
      then s\<lparr>piece := (piece s)\<lparr>matrix := rotated, icons := rotatedIcons, col := col (piece s) + k\<rparr>\<rparr>
      else kickLoop b p rotated rotatedIcons ks s)"

text \<open>A TypeError raised by a rotation ends the handler before any state is set.\<close>

definition rotateAction :: "game \<Rightarrow> game" where
  "rotateAction s =
     (let b = board s; p = piece s in
      if key p = KO then s
      else (case rotateMatrixCW (matrix p) of
              None \<Rightarrow> s
            | Some rotated \<Rightarrow>
               (case rotateIconsCW (icons p) of
                  None \<Rightarrow> s
                | Some rotatedIcons \<Rightarrow> kickLoop b p rotated rotatedIcons [0, 1, - 1, 2, - 2] s)))"

text \<open>
  The loop \<^verbatim>\<open>let d = 0; while (!collides(b, p, d + 1, 0)) d++;\<close> of \<^verbatim>\<open>hardDrop\<close>, started
  at \<open>d\<close>. It need not end (a bitmask with no set cell never collides): not returning is
  the value \<open>None\<close>.
\<close>

partial_function (option) dropLoop :: "board \<Rightarrow> piece \<Rightarrow> nat \<Rightarrow> nat option" where
  "dropLoop b p d = (if \<not> collides b p (int d + 1) 0 None then dropLoop b p (d + 1) else Some d)"

declare dropLoop.simps [code]

definition hardDrop :: "rnd \<Rightarrow> int \<Rightarrow> int \<Rightarrow> game \<Rightarrow> game option" where
  "hardDrop rnd cscore chigh s =
     (let b = board s; p = piece s in
      case dropLoop b p 0 of
        None \<Rightarrow> None
      | Some d \<Rightarrow> Some (lockAndSpawn rnd cscore chigh b (p\<lparr>row := row p + int d\<rparr>) s))"

subsection \<open>The lightning effect\<close>

text \<open>
  The effect with dependency \<^verbatim>\<open>[piece?.id]\<close>, run after a render in which the dependency
  changed. Its \<^verbatim>\<open>updateHighScore\<close> is the one of that render and sees the committed
  \<^verbatim>\<open>high\<close>.
\<close>

definition awardEffect :: "game \<Rightarrow> game" where
  "awardEffect s =
     (let p = piece s in
      if effectDep s = Some (pid p) then s
      else (let s1 = s\<lparr>effectDep := Some (pid p)\<rparr> in
            if pid p = awardedRef s1 then s1
            else (if hasLightningInIcons (icons p)
                  then (let ns = score s1 + 5 in updateHighScore (high s1) ns (s1\<lparr>score := ns\<rparr>))
                  else s1)\<lparr>awardedRef := pid p\<rparr>))"

subsection \<open>Events\<close>

text \<open>
  One event is handled at a time, and the state it sets is rendered before the next one.
  \<^item> \<open>KeyR\<close>: the key r or R (\<^verbatim>\<open>resetGame\<close>, also when the game is over).
  \<^item> \<open>Input i\<close>: an arrow key or the space bar in \<^verbatim>\<open>handleKey\<close>, or the touch gesture of
    \<^verbatim>\<open>onTouchEnd\<close> bound to the same action; both return at once when \<^verbatim>\<open>gameOver\<close>.
  \<^item> \<open>Button b\<close>: an on-screen button; its \<^verbatim>\<open>onClick\<close> calls the action directly.
  \<^item> \<open>HoldStart\<close>, \<open>HoldEnd\<close>: \<^verbatim>\<open>startHoldDown\<close> and \<^verbatim>\<open>stopHoldDown\<close> of the hold button;
    \<open>HoldTick\<close>: one call of the interval's callback.
  \<^item> \<open>Frame\<close>: a call of \<^verbatim>\<open>loop\<close> in which the accumulated time has reached the interval.
  \<^item> \<open>Render\<close>: the component function runs once more; the argument of
    \<^verbatim>\<open>useState(randomPiece())\<close> is evaluated and dropped, which advances \<^verbatim>\<open>PIECE_SEQ\<close>.
  Handlers created by the latest render see the current \<^verbatim>\<open>score\<close> and \<^verbatim>\<open>high\<close>; the frame
  loop and the interval see those of the render that created them. Time is not part of
  the model: \<^verbatim>\<open>softRef\<close>, which only selects the interval of the frame loop, is left out,
  and any order of events is possible. A handler that does not return (the loop of
  \<^verbatim>\<open>hardDrop\<close>) gives \<open>None\<close>.
\<close>

datatype intent = MoveLeft | MoveRight | SoftDropStep | RotateAction | HardDrop

datatype button = BtnLeft | BtnRotate | BtnRight | BtnDrop

fun buttonIntent :: "button \<Rightarrow> intent" where
  "buttonIntent BtnLeft = MoveLeft"
| "buttonIntent BtnRotate = RotateAction"
| "buttonIntent BtnRight = MoveRight"
| "buttonIntent BtnDrop = HardDrop"

datatype event =
    KeyR
  | Input intent
  | Button button
  | HoldStart
  | HoldEnd
  | HoldTick
  | Frame
  | Render

definition act :: "rnd \<Rightarrow> int \<Rightarrow> int \<Rightarrow> intent \<Rightarrow> game \<Rightarrow> game option" where
  "act rnd cscore chigh i s =
     (case i of
        MoveLeft \<Rightarrow> Some (moveLeft s)
      | MoveRight \<Rightarrow> Some (moveRight s)
      | SoftDropStep \<Rightarrow> Some (softDropStep rnd cscore chigh s)
      | RotateAction \<Rightarrow> Some (rotateAction s)
      | HardDrop \<Rightarrow> hardDrop rnd cscore chigh s)"

definition handle :: "rnd \<Rightarrow> event \<Rightarrow> game \<Rightarrow> game option" where
  "handle rnd ev s =
     (case ev of
        KeyR \<Rightarrow> Some (resetGame rnd s)
      | Input i \<Rightarrow> if gameOver s then Some s else act rnd (score s) (high s) i s
      | Button b \<Rightarrow> act rnd (score s) (high s) (buttonIntent b) s
      | HoldStart \<Rightarrow>
          Some (case holdTimer s of None \<Rightarrow> s\<lparr>holdTimer := Some (score s, high s)\<rparr> | Some t \<Rightarrow> s)
      | HoldEnd \<Rightarrow> Some (s\<lparr>holdTimer := None\<rparr>)
      | HoldTick \<Rightarrow>
          (case holdTimer s of
             None \<Rightarrow> Some s
           | Some t \<Rightarrow> if gameOver s then Some s else Some (softDropStep rnd (fst t) (snd t) s))
      | Frame \<Rightarrow> if gameOver s then Some s else Some (softDropStep rnd 0 (rafHigh s) s)
      | Render \<Rightarrow> Some (s\<lparr>PIECE_SEQ := PIECE_SEQ s + 1\<rparr>))"

text \<open>An event, followed by the render it causes and the effect of that render.\<close>

definition step :: "rnd \<Rightarrow> event \<Rightarrow> game \<Rightarrow> game option" where
  "step rnd ev s = map_option awardEffect (handle rnd ev s)"

fun run :: "(rnd \<times> event) list \<Rightarrow> game \<Rightarrow> game option" where
  "run [] s = Some s"
| "run ((rnd, ev) # es) s = (case step rnd ev s of None \<Rightarrow> None | Some s' \<Rightarrow> run es s')"

text \<open>
  The state after the component has mounted: \<open>seq0\<close> is \<^verbatim>\<open>PIECE_SEQ\<close> before the first
  render and \<open>loaded\<close> the value the initialiser of \<^verbatim>\<open>high\<close> returned.
\<close>

definition init :: "int \<Rightarrow> int \<Rightarrow> rnd \<Rightarrow> game" where
  "init seq0 loaded rnd =
     awardEffect
       \<lparr>board = emptyBoard, piece = randomPiece seq0 rnd, score = 0, high = loaded,
        gameOver = False, awardedRef = - 1, PIECE_SEQ = seq0 + 1, effectDep = None,
        rafHigh = loaded, holdTimer = None\<rparr>"

inductive reachable :: "game \<Rightarrow> bool" where
  reach_init: "0 \<le> seq0 \<Longrightarrow> reachable (init seq0 (loadHigh w item) rnd)"
| reach_step: "reachable s \<Longrightarrow> step rnd ev s = Some s' \<Longrightarrow> reachable s'"


subsection \<open>Predicates used in the statements\<close>

text \<open>
  What every active piece satisfies: it is not above the top row, its bitmask and icon
  matrix are squares of the same positive size, and four cells of the bitmask are set.
\<close>

definition pieceOk :: "piece \<Rightarrow> bool" where
  "pieceOk p =
     (0 \<le> row p
      \<and> (let n = length (matrix p) in
           0 < n \<and> rectangular (matrix p) n n \<and> rectangular (icons p) n n)
      \<and> setCells (matrix p) = 4)"

text \<open>The invariant of the reachable states.\<close>

definition wellFormed :: "game \<Rightarrow> bool" where
  "wellFormed s =
     (rectangular (board s) ROWS COLS
      \<and> pieceOk (piece s)
      \<and> (\<not> gameOver s \<longrightarrow> \<not> collides (board s) (piece s) 0 0 None)
      \<and> pid (piece s) \<le> PIECE_SEQ s
      \<and> 0 \<le> PIECE_SEQ s
      \<and> 0 \<le> score s
      \<and> rafHigh s \<le> high s
      \<and> (case holdTimer s of None \<Rightarrow> True | Some t \<Rightarrow> rafHigh s \<le> snd t))"

text \<open>After a render and its effect, the effect has seen the active piece.\<close>

definition synced :: "game \<Rightarrow> bool" where
  "synced s = (effectDep s = Some (pid (piece s)) \<and> awardedRef s = pid (piece s))"

text \<open>\<open>quiet s h\<close>: from \<open>s\<close> to \<open>h\<close> nothing changed but the geometry of the active
  piece, the hold timer and the counter.\<close>

definition quiet :: "game \<Rightarrow> game \<Rightarrow> bool" where
  "quiet s h =
     (board h = board s \<and> score h = score s \<and> high h = high s \<and> gameOver h = gameOver s
      \<and> awardedRef h = awardedRef s \<and> effectDep h = effectDep s \<and> rafHigh h = rafHigh s
      \<and> pid (piece h) = pid (piece s) \<and> PIECE_SEQ s \<le> PIECE_SEQ h)"

subsection \<open>Random inputs used in examples\<close>

text \<open>A piece of the given key with the first ordinary icon in every cell, or with the
  lightning icon in every cell.\<close>

definition plain :: "key \<Rightarrow> rnd" where
  "plain k = (k, \<lambda>r c. (False, 0))"

definition bolt :: "key \<Rightarrow> rnd" where
  "bolt k = (k, \<lambda>r c. (True, 0))"

text \<open>
  Sequences of events used as concrete inputs, each paired with the random input of the
  piece spawned if the event spawns one, and the states they lead to.
\<close>



text \<open>The long piece turned upright and pushed against the left wall.\<close>

definition kickRun :: "(rnd \<times> event) list" where
  "kickRun = (plain KI, Input RotateAction) # replicate 5 (plain KI, Input MoveLeft)"

definition kickState :: game where
  "kickState = the (run kickRun (init 0 (loadHigh True None) (plain KI)))"

text \<open>
  An upright long piece dropped in column 0, a flat one dropped on top of it (columns 0
  to 3 of row 15), and the square piece moved under the open sky of columns 1 and 2:
  below the flat piece, rows 16 to 19 of columns 1 to 3 are free.
\<close>

definition caveRun :: "(rnd \<times> event) list" where
  "caveRun =
     [(plain KI, Input RotateAction)] @ replicate 5 (plain KI, Input MoveLeft) @ [(plain KI, Input HardDrop)]
     @ replicate 3 (plain KI, Input MoveLeft) @ [(plain KO, Input HardDrop)]
     @ replicate 3 (plain KO, Input MoveLeft)"

definition caveState :: game where
  "caveState = the (run caveRun (init 0 (loadHigh True None) (plain KI)))"




text \<open>
  Nothing stored; the first piece carries lightning (score 5, best 5). The player
  restarts, fills columns 0 to 7 of the bottom row with two long pieces and brings the
  square piece down over columns 8 and 9 with the down key, until it rests.
\<close>

definition lowerRun :: "(rnd \<times> event) list" where
  "lowerRun =
     [(plain KI, KeyR)]
     @ replicate 3 (plain KI, Input MoveLeft) @ [(plain KI, Input HardDrop)]
     @ [(plain KI, Input MoveRight), (plain KO, Input HardDrop)]
     @ replicate 4 (plain KO, Input MoveRight) @ replicate 18 (plain KO, Input SoftDropStep)"

definition lowerState :: game where
  "lowerState = the (run lowerRun (init 0 (loadHigh True None) (bolt KO)))"

text \<open>
  The same start and restart, then the on-screen down button is pressed and held (its
  interval is created when the score is 0 and the best 5). The pieces come down by the
  ticks of the interval and of the frame loop. The bottom row is completed a first time
  by the square piece, locked by the frame loop, and is about to be completed a second
  time by a long piece that rests on the floor.
\<close>

definition staleRun :: "(rnd \<times> event) list" where
  "staleRun =
     [(plain KI, KeyR), (plain KI, HoldStart)]
     @ [(plain KI, Input MoveLeft), (plain KI, HoldTick), (plain KI, Input MoveLeft), (plain KI, Frame),
        (plain KI, Input MoveLeft), (plain KI, Input HardDrop)]
     @ [(plain KI, Input MoveRight), (plain KI, HoldTick), (plain KO, Input HardDrop)]
     @ [(plain KO, Input MoveRight), (plain KO, HoldTick), (plain KO, Input MoveRight), (plain KO, Frame),
        (plain KO, Input MoveRight), (plain KO, HoldTick), (plain KO, Input MoveRight), (plain KO, Frame)]
     @ concat (replicate 7 [(plain KO, HoldTick), (plain KO, Frame)])
     @ [(plain KI, Frame)]
     @ [(plain KI, Input MoveLeft), (plain KI, HoldTick), (plain KI, Input MoveLeft), (plain KI, Frame),
        (plain KI, Input MoveLeft), (plain KI, Input HardDrop)]
     @ [(plain KI, Input MoveRight)]
     @ concat (replicate 9 [(plain KI, HoldTick), (plain KI, Frame)])"

definition staleState :: game where
  "staleState = the (run staleRun (init 0 (loadHigh True None) (bolt KO)))"

text \<open>
  The game continued: the interval locks the long piece, the button is released, four
  upright long pieces are stacked in the spawn column, and a fifth one is turned upright
  on top of them, where it rests.
\<close>

definition topOutRun :: "(rnd \<times> event) list" where
  "topOutRun =
     staleRun @ [(plain KI, HoldTick), (plain KI, HoldEnd)]
     @ concat (replicate 4 [(plain KI, Input RotateAction), (plain KI, Input HardDrop)])
     @ [(plain KI, Input RotateAction)]"

definition topOutState :: game where
  "topOutState = the (run topOutRun (init 0 (loadHigh True None) (bolt KO)))"

section \<open>Rotation\<close>

text \<open>The two nested loops of the rotation write every cell of the result once; the
  result has a closed form.\<close>

lemma put_cols_length: "length (fold (\<lambda>c res. put2 res c k (f c)) cs res) = length res"
  by (induction cs arbitrary: res) (simp_all add: put2_def)

lemma put_cols_nth:
  "i < length res \<Longrightarrow>
   fold (\<lambda>c res. put2 res c k (f c)) cs res ! i =
     (if i \<in> set cs then (res ! i)[k := f i] else res ! i)"
proof (induction cs arbitrary: res)
  case Nil
  then show ?case by simp
next
  case (Cons c cs)
  have len: "i < length (put2 res c k (f c))"
    using Cons.prems by (simp add: put2_def)
  show ?case
    using Cons.IH [OF len] Cons.prems
    by (cases "i = c") (auto simp: put2_def)
qed

lemma put_rows_length:
  "length (fold (\<lambda>r res. fold (\<lambda>c res. put2 res c (kf r) (g r c)) cs res) rs res) = length res"
  by (induction rs arbitrary: res) (simp_all add: put_cols_length)

lemma put_rows_nth:
  "i < length res \<Longrightarrow>
   fold (\<lambda>r res. fold (\<lambda>c res. put2 res c (kf r) (g r c)) cs res) rs res ! i =
     (if i \<in> set cs then fold (\<lambda>r row. row[kf r := g r i]) rs (res ! i) else res ! i)"
proof (induction rs arbitrary: res)
  case Nil
  then show ?case by simp
next
  case (Cons r rs)
  let ?res = "fold (\<lambda>c res. put2 res c (kf r) (g r c)) cs res"
  have len: "i < length ?res"
    using Cons.prems by (simp add: put_cols_length)
  show ?case
    using Cons.IH [OF len] Cons.prems
    by (simp add: put_cols_nth)
qed

lemma upd_fold_length: "length (fold (\<lambda>r ys. ys[kf r := h r]) rs ys) = length ys"
  by (induction rs arbitrary: ys) simp_all

lemma upd_fold_other:
  "j \<notin> kf ` set rs \<Longrightarrow> fold (\<lambda>r ys. ys[kf r := h r]) rs ys ! j = ys ! j"
  by (induction rs arbitrary: ys) (auto simp: nth_list_update)

lemma upd_fold_hit:
  "r \<in> set rs \<Longrightarrow> distinct rs \<Longrightarrow> inj_on kf (set rs) \<Longrightarrow> kf r < length ys \<Longrightarrow>
   fold (\<lambda>r ys. ys[kf r := h r]) rs ys ! kf r = h r"
proof (induction rs arbitrary: ys)
  case Nil
  then show ?case by simp
next
  case (Cons a rs)
  show ?case
  proof (cases "r = a")
    case True
    have "kf a \<notin> kf ` set rs"
      using Cons.prems(2,3) by (auto simp: inj_on_def)
    then show ?thesis
      using True Cons.prems(4) by (simp add: upd_fold_other)
  next
    case False
    then have "r \<in> set rs" using Cons.prems(1) by simp
    moreover have "distinct rs" "inj_on kf (set rs)"
      using Cons.prems(2,3) by (auto simp: inj_on_def)
    ultimately show ?thesis
      using Cons.IH [of "ys[kf a := h a]"] Cons.prems(4) by simp
  qed
qed

lemma rotateCW_closed:
  assumes "m \<noteq> []"
  shows "rotateCW fill m =
     Some (map (\<lambda>c. map (\<lambda>j. elem_or fill (m ! (length m - 1 - j)) c) [0..<length m])
               [0..<length (hd m)])"
proof -
  define rows where "rows = length m"
  define cols where "cols = length (hd m)"
  define res where "res = fold (\<lambda>r res. fold (\<lambda>c res. put2 res c (rows - 1 - r) (elem_or fill (m ! r) c))
                                       [0..<cols] res)
                         [0..<rows] (replicate cols (replicate rows fill))"
  define rhs where "rhs = map (\<lambda>c. map (\<lambda>j. elem_or fill (m ! (rows - 1 - j)) c) [0..<rows]) [0..<cols]"
  have inj: "inj_on (\<lambda>r. rows - 1 - r) (set [0..<rows])"
    by (auto simp: inj_on_def)
  have rowc: "res ! c = rhs ! c" if c: "c < cols" for c
  proof -
    define rw where "rw = fold (\<lambda>r ys. ys[rows - 1 - r := elem_or fill (m ! r) c]) [0..<rows] (replicate rows fill)"
    have eq: "res ! c = rw"
      unfolding res_def rw_def
      using c put_rows_nth [of c "replicate cols (replicate rows fill)"
          "\<lambda>r. rows - 1 - r" "\<lambda>r c. elem_or fill (m ! r) c" "[0..<cols]" "[0..<rows]"]
      by simp
    have len: "length rw = rows"
      by (simp add: rw_def upd_fold_length)
    have "rw ! j = elem_or fill (m ! (rows - 1 - j)) c" if j: "j < rows" for j
    proof -
      have mem: "rows - 1 - j \<in> set [0..<rows]" using j by auto
      have jj: "rows - 1 - (rows - 1 - j) = j" using j by simp
      from upd_fold_hit [OF mem _ inj, of "replicate rows fill" "\<lambda>r. elem_or fill (m ! r) c"] j jj
      show ?thesis by (simp add: rw_def)
    qed
    then have "rw = map (\<lambda>j. elem_or fill (m ! (rows - 1 - j)) c) [0..<rows]"
      by (intro nth_equalityI) (simp_all add: len)
    then show ?thesis using eq c by (simp add: rhs_def)
  qed
  have "res = rhs"
  proof (rule nth_equalityI)
    show "length res = length rhs"
      by (simp add: res_def rhs_def put_rows_length)
    show "res ! i = rhs ! i" if "i < length res" for i
      using that rowc [of i] by (simp add: res_def put_rows_length)
  qed
  moreover have "rotateCW fill m = Some res"
    using assms by (cases m) (simp_all add: rotateCW_def Let_def res_def rows_def cols_def)
  ultimately show ?thesis
    by (simp add: rhs_def rows_def cols_def)
qed

lemma rotateCW_rect:
  assumes "rectangular m R C" "0 < R"
  shows "rotateCW fill m = Some (map (\<lambda>c. map (\<lambda>j. m ! (R - 1 - j) ! c) [0..<R]) [0..<C])"
proof -
  have ne: "m \<noteq> []" and len: "length m = R" and rows: "\<And>r. r < R \<Longrightarrow> length (m ! r) = C"
    using assms by (auto simp: rectangular_def list_all_length)
  have hd: "length (hd m) = C"
    using rows [of 0] assms(2) ne by (simp add: hd_conv_nth)
  have "map (\<lambda>c. map (\<lambda>j. elem_or fill (m ! (R - 1 - j)) c) [0..<R]) [0..<C]
      = map (\<lambda>c. map (\<lambda>j. m ! (R - 1 - j) ! c) [0..<R]) [0..<C]"
    using rows by (auto simp: elem_or_def)
  then show ?thesis
    using rotateCW_closed [OF ne, of fill] by (simp add: len hd)
qed

lemma rotateCW_rect_dims:
  assumes "rectangular m R C" "0 < R" "rotateCW fill m = Some m1"
  shows "rectangular m1 C R"
  using assms rotateCW_rect [OF assms(1,2), of fill]
  by (auto simp: rectangular_def list_all_length)

lemma rotateCW_rect_nth:
  assumes "rectangular m R C" "0 < R" "rotateCW fill m = Some m1" "r < R" "c < C"
  shows "m1 ! c ! (R - 1 - r) = m ! r ! c"
  using assms rotateCW_rect [OF assms(1,2), of fill]
  by auto

lemma rotateCW_twice:
  assumes "rectangular m R C" "0 < R" "0 < C"
  shows "Option.bind (rotateCW fill m) (rotateCW fill) = Some (rev (map rev m))"
proof -
  let ?m1 = "map (\<lambda>c. map (\<lambda>j. m ! (R - 1 - j) ! c) [0..<R]) [0..<C]"
  have one: "rotateCW fill m = Some ?m1"
    by (rule rotateCW_rect [OF assms(1,2)])
  have r1: "rectangular ?m1 C R"
    by (rule rotateCW_rect_dims [OF assms(1,2) one])
  have two: "rotateCW fill ?m1 = Some (map (\<lambda>c. map (\<lambda>j. ?m1 ! (C - 1 - j) ! c) [0..<C]) [0..<R])"
    by (rule rotateCW_rect [OF r1 assms(3)])
  have len: "length m = R" and rows: "\<And>r. r < R \<Longrightarrow> length (m ! r) = C"
    using assms by (auto simp: rectangular_def list_all_length)
  have "map (\<lambda>c. map (\<lambda>j. ?m1 ! (C - 1 - j) ! c) [0..<C]) [0..<R] = rev (map rev m)"
  proof (rule nth_equalityI)
    show "length (map (\<lambda>c. map (\<lambda>j. ?m1 ! (C - 1 - j) ! c) [0..<C]) [0..<R]) = length (rev (map rev m))"
      by (simp add: len)
  next
    fix a assume "a < length (map (\<lambda>c. map (\<lambda>j. ?m1 ! (C - 1 - j) ! c) [0..<C]) [0..<R])"
    then have a: "a < R" by simp
    have ra: "length (m ! (R - 1 - a)) = C" using rows [of "R - 1 - a"] a by simp
    have "map (\<lambda>j. ?m1 ! (C - 1 - j) ! a) [0..<C] = rev (m ! (R - 1 - a))"
    proof (rule nth_equalityI)
      show "length (map (\<lambda>j. ?m1 ! (C - 1 - j) ! a) [0..<C]) = length (rev (m ! (R - 1 - a)))"
        using ra by simp
    next
      fix b assume "b < length (map (\<lambda>j. ?m1 ! (C - 1 - j) ! a) [0..<C])"
      then have b: "b < C" by simp
      show "map (\<lambda>j. ?m1 ! (C - 1 - j) ! a) [0..<C] ! b = rev (m ! (R - 1 - a)) ! b"
        using a b ra by (simp add: rev_nth)
    qed
    then show "map (\<lambda>c. map (\<lambda>j. ?m1 ! (C - 1 - j) ! c) [0..<C]) [0..<R] ! a = rev (map rev m) ! a"
      using a len by (simp add: rev_nth)
  qed
  with one two show ?thesis by simp
qed

lemma rectangular_half_turn: "rectangular m R C \<Longrightarrow> rectangular (rev (map rev m)) R C"
  by (auto simp: rectangular_def list_all_iff)

lemma rotateCW_four:
  assumes "rectangular m R C" "0 < R" "0 < C"
  shows "Option.bind (Option.bind (Option.bind (rotateCW fill m) (rotateCW fill)) (rotateCW fill)) (rotateCW fill) = Some m"
proof -
  let ?h = "rev (map rev m)"
  have h: "Option.bind (rotateCW fill m) (rotateCW fill) = Some ?h"
    by (rule rotateCW_twice [OF assms])
  have "Option.bind (rotateCW fill ?h) (rotateCW fill) = Some (rev (map rev ?h))"
    by (rule rotateCW_twice [OF rectangular_half_turn [OF assms(1)] assms(2,3)])
  moreover have "rev (map rev ?h) = m"
    by (simp add: rev_map [symmetric] comp_def)
  ultimately show ?thesis
    using h by (simp add: Option.bind_assoc)
qed

text \<open>
  C4. For a rectangular matrix of \<open>R\<close> rows and \<open>C\<close> columns with at least one row and one
  column, one clockwise rotation succeeds and gives \<open>C\<close> rows of \<open>R\<close> cells in which the
  source cell \<open>(r, c)\<close> is found at \<open>(c, R - 1 - r)\<close>; four rotations give the matrix
  back. The rotation of the icon matrix moves its cells in the same way, so the icon of a
  cell stays with that cell.
\<close>

theorem rotate_quarter_turn:
  assumes "rectangular m R C" "rectangular ic R C" "0 < R" "0 < C"
  shows "\<exists>m1 i1. rotateMatrixCW m = Some m1 \<and> rotateIconsCW ic = Some i1
           \<and> rectangular m1 C R \<and> rectangular i1 C R
           \<and> (\<forall>r<R. \<forall>c<C. m1 ! c ! (R - 1 - r) = m ! r ! c \<and> i1 ! c ! (R - 1 - r) = ic ! r ! c)
           \<and> Option.bind (Option.bind (Option.bind (rotateMatrixCW m) rotateMatrixCW)
                rotateMatrixCW) rotateMatrixCW = Some m
           \<and> Option.bind (Option.bind (Option.bind (rotateIconsCW ic) rotateIconsCW)
                rotateIconsCW) rotateIconsCW = Some ic"
proof -
  obtain m1 where m1: "rotateCW 0 m = Some m1"
    using rotateCW_rect [OF assms(1,3)] by blast
  obtain i1 where i1: "rotateCW None ic = Some i1"
    using rotateCW_rect [OF assms(2,3)] by blast
  have dims: "rectangular m1 C R" "rectangular i1 C R"
    using rotateCW_rect_dims [OF assms(1,3) m1] rotateCW_rect_dims [OF assms(2,3) i1] by simp_all
  have cells: "\<forall>r<R. \<forall>c<C. m1 ! c ! (R - 1 - r) = m ! r ! c \<and> i1 ! c ! (R - 1 - r) = ic ! r ! c"
    using rotateCW_rect_nth [OF assms(1,3) m1] rotateCW_rect_nth [OF assms(2,3) i1] by blast
  have four_m: "Option.bind (Option.bind (Option.bind (rotateMatrixCW m) rotateMatrixCW)
                  rotateMatrixCW) rotateMatrixCW = Some m"
    using rotateCW_four [OF assms(1,3,4), of 0]
    by (simp add: rotateMatrixCW_def [abs_def])
  have four_i: "Option.bind (Option.bind (Option.bind (rotateIconsCW ic) rotateIconsCW)
                  rotateIconsCW) rotateIconsCW = Some ic"
    using rotateCW_four [OF assms(2,3,4), of None]
    by (simp add: rotateIconsCW_def [abs_def])
  show ?thesis
    using m1 i1 dims cells four_m four_i
    by (simp add: rotateMatrixCW_def rotateIconsCW_def)
qed

theorem rotate_quarter_turn_witness:
  "rectangular [[1, 0, 0], [1, 1, 1 :: nat]] 2 3
   \<and> rectangular [[Some ''a'', None, None], [Some ''b'', Some ''c'', Some ''d'']] 2 3
   \<and> Option.bind (Option.bind (Option.bind (rotateMatrixCW [[1, 0, 0], [1, 1, 1]]) rotateMatrixCW)
        rotateMatrixCW) rotateMatrixCW = Some [[1, 0, 0], [1, 1, 1]]
   \<and> Option.bind (Option.bind (Option.bind
          (rotateIconsCW [[Some ''a'', None, None], [Some ''b'', Some ''c'', Some ''d'']]) rotateIconsCW)
        rotateIconsCW) rotateIconsCW = Some [[Some ''a'', None, None], [Some ''b'', Some ''c'', Some ''d'']]"
proof -
  have h1: "rectangular [[1, 0, 0], [1, 1, 1 :: nat]] 2 3"
    by (simp add: rectangular_def)
  have h2: "rectangular [[Some ''a'', None, None], [Some ''b'', Some ''c'', Some ''d'']] 2 3"
    by (simp add: rectangular_def)
  have h3: "(0::nat) < 2" and h4: "(0::nat) < 3"
    by simp_all
  from rotate_quarter_turn [OF h1 h2 h3 h4] h1 h2 show ?thesis
    by blast
qed

section \<open>Line clearing\<close>

lemma clearLines_count:
  "length (filter (\<lambda>row. list_ex (\<lambda>cell. cell = None) row) b)
     + length (filter (\<lambda>row. \<forall>cell\<in>set row. cell \<noteq> None) b) = length b"
  by (induction b) (auto simp: list_ex_iff)

lemma clearLines_kept:
  "filter (\<lambda>row. list_ex (\<lambda>cell. cell = None) row) b
     = filter (\<lambda>row. \<not> (\<forall>cell\<in>set row. cell \<noteq> None)) b"
  by (rule filter_cong) (auto simp: list_ex_iff)

lemma clearLines_rectangular:
  assumes "rectangular b ROWS COLS"
  shows "rectangular (fst (clearLines b)) ROWS COLS"
proof -
  have "length (filter (\<lambda>row. list_ex (\<lambda>cell. cell = None) row) b) \<le> ROWS"
    using assms length_filter_le [of _ b] by (simp add: rectangular_def)
  then show ?thesis
    using assms by (auto simp: clearLines_def Let_def rectangular_def list_all_iff)
qed

lemma clearLines_cleared_nonneg:
  assumes "length b = ROWS"
  shows "0 \<le> snd (clearLines b)"
  using assms length_filter_le [of "\<lambda>row. list_ex (\<lambda>cell. cell = None) row" b]
  by (simp add: clearLines_def Let_def)

text \<open>
  C3. On a board of 20 rows by 10 columns, \<^verbatim>\<open>clearLines\<close> keeps, in their order, exactly
  the rows that are not fully occupied, puts as many empty rows above them as there were
  full rows, and returns that number (0 when no row is full); the result is again 20 by
  10.
\<close>

theorem clearLines_removes_full_rows:
  assumes "rectangular b ROWS COLS"
  shows "(let n = length (filter (\<lambda>row. \<forall>cell\<in>set row. cell \<noteq> None) b) in
          clearLines b =
            (replicate n (replicate COLS None)
               @ filter (\<lambda>row. \<not> (\<forall>cell\<in>set row. cell \<noteq> None)) b,
             int n))
         \<and> rectangular (fst (clearLines b)) ROWS COLS"
proof -
  have len: "length b = ROWS"
    using assms by (simp add: rectangular_def)
  have "int ROWS - int (length (filter (\<lambda>row. list_ex (\<lambda>cell. cell = None) row) b))
          = int (length (filter (\<lambda>row. \<forall>cell\<in>set row. cell \<noteq> None) b))"
    using clearLines_count [of b] len by simp
  then show ?thesis
    using clearLines_rectangular [OF assms] clearLines_kept [of b]
    by (simp add: clearLines_def Let_def)
qed

theorem clearLines_removes_full_rows_witness:
  "rectangular (replicate 19 (replicate 10 None)
                 @ [replicate 10 (Some \<lparr>cell_color = ''#111'', cell_icon = Some ''*''\<rparr>)]) ROWS COLS
   \<and> clearLines (replicate 19 (replicate 10 None)
                 @ [replicate 10 (Some \<lparr>cell_color = ''#111'', cell_icon = Some ''*''\<rparr>)])
       = (replicate 1 (replicate 10 None) @ replicate 19 (replicate 10 None), 1)"
proof -
  let ?b = "replicate 19 (replicate 10 None)
              @ [replicate 10 (Some \<lparr>cell_color = ''#111'', cell_icon = Some ''*''\<rparr>)]"
  have h: "rectangular ?b ROWS COLS"
    by (simp add: rectangular_def list_all_iff)
  have n: "length (filter (\<lambda>row. \<forall>cell\<in>set row. cell \<noteq> None) ?b) = 1"
    by simp
  have k: "filter (\<lambda>row. \<not> (\<forall>cell\<in>set row. cell \<noteq> None)) ?b = replicate 19 (replicate 10 None)"
    by simp
  from clearLines_removes_full_rows [OF h] h show ?thesis
    unfolding Let_def n k by simp
qed

section \<open>Collision, merge and the drop loop\<close>

lemma collides_col_shift:
  "collides b (p\<lparr>col := col p + k\<rparr>) offR offC mat = collides b p offR (offC + k) mat"
  by (cases mat) (simp_all add: collides_def Let_def ac_simps)

lemma collides_row_shift:
  "collides b (p\<lparr>row := row p + d\<rparr>) offR offC mat = collides b p (offR + d) offC mat"
  by (cases mat) (simp_all add: collides_def Let_def ac_simps)

lemma collides_rotated:
  "collides b (p\<lparr>matrix := m, icons := ic, col := col p + k\<rparr>) 0 0 None
     = collides b p 0 k (Some m)"
  by (simp add: collides_def Let_def ac_simps)

lemma spawn_free:
  "\<not> collides emptyBoard (randomPiece seq rnd) 0 0 None"
  by (cases "fst rnd")
     (simp_all add: collides_def randomPiece_def emptyBoard_def elem_or_def Let_def upt_rec)

lemma fold_invariant:
  "(\<And>x a. P a \<Longrightarrow> P (f x a)) \<Longrightarrow> P a \<Longrightarrow> P (fold f xs a)"
  by (induction xs arbitrary: a) simp_all

lemma put2_rectangular: "rectangular b R C \<Longrightarrow> rectangular (put2 b i j v) R C"
  by (cases "i < length b") (auto simp: rectangular_def put2_def list_all_length nth_list_update)

lemma merge_rectangular:
  assumes "rectangular b R C"
  shows "rectangular (merge b p) R C"
  unfolding merge_def Let_def
  by (intro fold_invariant [where P = "\<lambda>b. rectangular b R C"] assms)
     (simp_all add: put2_rectangular)

lemma count_by_index:
  "sum_list (map (\<lambda>c. if P (xs ! c) then 1 else 0) [0..<length xs]) = length (filter P xs)"
proof -
  have "map (\<lambda>c. if P (xs ! c) then 1 else (0::nat)) [0..<length xs]
          = map (\<lambda>x. if P x then 1 else 0) xs"
    by (intro nth_equalityI) simp_all
  moreover have "sum_list (map (\<lambda>x. if P x then 1 else 0) xs) = length (filter P xs)"
    by (induction xs) simp_all
  ultimately show ?thesis by simp
qed

lemma count_columns:
  assumes "\<forall>xs\<in>set m. length xs = C"
  shows "sum_list (map (\<lambda>c. length (filter P (map (\<lambda>xs. xs ! c) m))) [0..<C])
           = sum_list (map (\<lambda>xs. length (filter P xs)) m)"
  using assms
proof (induction m)
  case Nil
  then show ?case by simp
next
  case (Cons x m)
  have len: "length x = C" using Cons.prems by simp
  have "sum_list (map (\<lambda>c. length (filter P (map (\<lambda>xs. xs ! c) (x # m)))) [0..<C])
          = sum_list (map (\<lambda>c. (if P (x ! c) then 1 else 0)
                                  + length (filter P (map (\<lambda>xs. xs ! c) m))) [0..<C])"
    by (intro arg_cong [where f = sum_list] map_cong) simp_all
  also have "\<dots> = sum_list (map (\<lambda>c. if P (x ! c) then 1 else 0) [0..<C])
                   + sum_list (map (\<lambda>c. length (filter P (map (\<lambda>xs. xs ! c) m))) [0..<C])"
    by (simp add: sum_list_addf)
  also have "\<dots> = length (filter P x) + sum_list (map (\<lambda>xs. length (filter P xs)) m)"
    using Cons.IH Cons.prems count_by_index [of P x] len by simp
  finally show ?case by simp
qed

lemma setCells_rotateCW:
  assumes "rectangular m R C" "0 < R" "rotateCW 0 m = Some m1"
  shows "setCells m1 = setCells m"
proof -
  have len: "length m = R" and rows: "\<forall>xs\<in>set m. length xs = C"
    using assms(1) by (auto simp: rectangular_def list_all_iff)
  have m1: "m1 = map (\<lambda>c. map (\<lambda>j. m ! (R - 1 - j) ! c) [0..<R]) [0..<C]"
    using rotateCW_rect [OF assms(1,2), of 0] assms(3) by simp
  have col: "map (\<lambda>j. m ! (R - 1 - j) ! c) [0..<R] = rev (map (\<lambda>xs. xs ! c) m)" for c
    using len by (intro nth_equalityI) (simp_all add: rev_nth)
  have "length (filter (\<lambda>v. v \<noteq> 0) (map (\<lambda>j. m ! (R - 1 - j) ! c) [0..<R]))
          = length (filter (\<lambda>v. v \<noteq> 0) (map (\<lambda>xs. xs ! c) m))" for c
    by (simp only: col rev_filter [symmetric] length_rev)
  then have "setCells m1
          = sum_list (map (\<lambda>c. length (filter (\<lambda>v. v \<noteq> 0) (map (\<lambda>xs. xs ! c) m))) [0..<C])"
    by (simp only: m1 setCells_def map_map comp_def)
  also have "\<dots> = setCells m"
    unfolding setCells_def by (rule count_columns [OF rows])
  finally show ?thesis .
qed

lemma sum_list_pos_elem:
  fixes f :: "'a \<Rightarrow> nat"
  shows "0 < sum_list (map f xs) \<Longrightarrow> \<exists>x\<in>set xs. 0 < f x"
  by (induction xs) auto

lemma setCells_pos_cell:
  assumes "0 < setCells m"
  shows "\<exists>r<length m. \<exists>c<length (m ! r). m ! r ! c \<noteq> 0"
proof -
  from assms obtain xs where xs: "xs \<in> set m" "0 < length (filter (\<lambda>v. v \<noteq> 0) xs)"
    unfolding setCells_def using sum_list_pos_elem by blast
  from xs(2) obtain v where v: "v \<in> set xs" "v \<noteq> 0"
    by (auto simp: filter_empty_conv)
  from xs(1) obtain r where r: "r < length m" "m ! r = xs"
    by (auto simp: in_set_conv_nth)
  from v(1) obtain c where c: "c < length xs" "xs ! c = v"
    by (auto simp: in_set_conv_nth)
  show ?thesis using r c v(2) by auto
qed

lemma shape_ok: "pieceOk (randomPiece seq rnd)"
  by (cases "fst rnd")
     (simp_all add: pieceOk_def randomPiece_def rectangular_def setCells_def Let_def upt_conv_Cons)

lemma spawnNext_eq: "spawnNext rnd s = randomPiece (PIECE_SEQ s) rnd"
  by (simp add: spawnNext_def randomPiece_def Let_def)

lemma dropLoop_stop: "collides b p (int d + 1) 0 None \<Longrightarrow> dropLoop b p d = Some d"
  by (subst dropLoop.simps) simp

lemma dropLoop_go: "\<not> collides b p (int d + 1) 0 None \<Longrightarrow> dropLoop b p d = dropLoop b p (d + 1)"
  by (subst dropLoop.simps) simp

lemma collides_floor:
  assumes "r < length (matrix p)" "c < length (matrix p ! 0)" "elem_or 0 (matrix p ! r) c \<noteq> 0"
    and "int ROWS \<le> row p + int r + offR"
  shows "collides b p offR offC None"
proof -
  have "\<exists>r\<in>set [0..<length (matrix p)]. \<exists>c\<in>set [0..<length (matrix p ! 0)].
          elem_or 0 (matrix p ! r) c \<noteq> 0 \<and> int ROWS \<le> row p + int r + offR"
    using assms by (intro bexI [of _ r] bexI [of _ c]) simp_all
  then show ?thesis
    unfolding collides_def Let_def list_ex_iff by fastforce
qed

lemma pieceOk_cell:
  assumes "pieceOk p"
  shows "\<exists>r c. r < length (matrix p) \<and> c < length (matrix p ! 0) \<and> elem_or 0 (matrix p ! r) c \<noteq> 0"
proof -
  let ?m = "matrix p" and ?n = "length (matrix p)"
  have rect: "rectangular ?m ?n ?n" and pos: "0 < ?n" and cells: "0 < setCells ?m"
    using assms by (simp_all add: pieceOk_def Let_def)
  have rows: "\<And>r. r < ?n \<Longrightarrow> length (?m ! r) = ?n"
    using rect by (simp add: rectangular_def list_all_length)
  from setCells_pos_cell [OF cells] obtain r c where
    rc: "r < ?n" "c < length (?m ! r)" "?m ! r ! c \<noteq> 0" by blast
  then have "c < length (?m ! 0)" "elem_or 0 (?m ! r) c \<noteq> 0"
    using rows [of r] rows [of 0] pos by (simp_all add: elem_or_def)
  with rc(1) show ?thesis by blast
qed

lemma dropLoop_terminates_aux:
  assumes "r < length (matrix p)" "c < length (matrix p ! 0)" "elem_or 0 (matrix p ! r) c \<noteq> 0"
  shows "nat (int ROWS - (row p + int r + int d + 1)) = k \<Longrightarrow>
         \<exists>d'. dropLoop b p d = Some d' \<and> d \<le> d' \<and> (d' = d \<or> row p + int r + int d' < int ROWS)"
proof (induction k arbitrary: d)
  case 0
  then have "int ROWS \<le> row p + int r + (int d + 1)" by simp
  then have "collides b p (int d + 1) 0 None"
    by (rule collides_floor [OF assms])
  then show ?case by (simp add: dropLoop_stop)
next
  case (Suc k)
  show ?case
  proof (cases "collides b p (int d + 1) 0 None")
    case True
    then show ?thesis by (simp add: dropLoop_stop)
  next
    case False
    have "nat (int ROWS - (row p + int r + int (d + 1) + 1)) = k"
      using Suc.prems by simp
    from Suc.IH [OF this] obtain d' where
      d': "dropLoop b p (d + 1) = Some d'" "d + 1 \<le> d'"
          "d' = d + 1 \<or> row p + int r + int d' < int ROWS" by blast
    have "row p + int r + int (d + 1) < int ROWS"
      using Suc.prems by simp
    with d' show ?thesis
      using False by (auto simp: dropLoop_go)
  qed
qed

lemma dropLoop_terminates:
  assumes "pieceOk p"
  shows "\<exists>d. dropLoop b p 0 = Some d \<and> d < ROWS"
proof -
  from pieceOk_cell [OF assms] obtain r c where
    rc: "r < length (matrix p)" "c < length (matrix p ! 0)" "elem_or 0 (matrix p ! r) c \<noteq> 0"
    by blast
  from dropLoop_terminates_aux [OF rc refl, where d = 0 and b = b] obtain d where
    d: "dropLoop b p 0 = Some d" "d = 0 \<or> row p + int r + int d < int ROWS" by auto
  have "0 \<le> row p" using assms by (simp add: pieceOk_def)
  with d show ?thesis by auto
qed

lemma dropLoop_result:
  assumes "dropLoop b p d = Some d'"
  shows "d \<le> d' \<and> collides b p (int d' + 1) 0 None
         \<and> (\<forall>e. d < e \<and> e \<le> d' \<longrightarrow> \<not> collides b p (int e) 0 None)"
proof (rule dropLoop.raw_induct
    [where P = "\<lambda>b p d d'. d \<le> d' \<and> collides b p (int d' + 1) 0 None
         \<and> (\<forall>e. d < e \<and> e \<le> d' \<longrightarrow> \<not> collides b p (int e) 0 None)", OF _ assms],
    goal_cases)
  case (1 f b p d d')
  show ?case
  proof (cases "collides b p (int d + 1) 0 None")
    case True
    with 1(2) show ?thesis by auto
  next
    case False
    with 1(2) have "f b p (d + 1) = Some d'" by simp
    from 1(1) [OF this] have
      ih: "d + 1 \<le> d'" "collides b p (int d' + 1) 0 None"
          "\<forall>e. d + 1 < e \<and> e \<le> d' \<longrightarrow> \<not> collides b p (int e) 0 None" by auto
    have "\<not> collides b p (int e) 0 None" if "d < e" "e \<le> d'" for e
    proof (cases "e = d + 1")
      case True
      then show ?thesis using False by (simp add: add.commute)
    next
      case False
      then show ?thesis using ih(3) that by auto
    qed
    with ih(1,2) show ?thesis by auto
  qed
qed

section \<open>The state after an action\<close>

lemma updateHighScore_fields [simp]:
  "board (updateHighScore ch n s) = board s"
  "piece (updateHighScore ch n s) = piece s"
  "score (updateHighScore ch n s) = score s"
  "gameOver (updateHighScore ch n s) = gameOver s"
  "awardedRef (updateHighScore ch n s) = awardedRef s"
  "PIECE_SEQ (updateHighScore ch n s) = PIECE_SEQ s"
  "effectDep (updateHighScore ch n s) = effectDep s"
  "rafHigh (updateHighScore ch n s) = rafHigh s"
  "holdTimer (updateHighScore ch n s) = holdTimer s"
  "high (updateHighScore ch n s) = (if n > ch then n else high s)"
  by (simp_all add: updateHighScore_def)

lemma spawnNext_score [simp]:
  "spawnNext rnd (s\<lparr>score := n\<rparr>) = spawnNext rnd s"
  "spawnNext rnd (updateHighScore ch n s) = spawnNext rnd s"
  by (simp_all add: spawnNext_def)

lemma lockAndSpawn_fields:
  "board (lockAndSpawn rnd cs ch b p s) = fst (clearLines (merge b p))"
  "score (lockAndSpawn rnd cs ch b p s) = score s + snd (clearLines (merge b p))"
  "PIECE_SEQ (lockAndSpawn rnd cs ch b p s) = PIECE_SEQ s + 1"
  "gameOver (lockAndSpawn rnd cs ch b p s)
     = (gameOver s \<or> collides (fst (clearLines (merge b p))) (spawnNext rnd s) 0 0 None)"
  "piece (lockAndSpawn rnd cs ch b p s)
     = (if collides (fst (clearLines (merge b p))) (spawnNext rnd s) 0 0 None
        then piece s else spawnNext rnd s)"
  "awardedRef (lockAndSpawn rnd cs ch b p s) = awardedRef s"
  "effectDep (lockAndSpawn rnd cs ch b p s) = effectDep s"
  "rafHigh (lockAndSpawn rnd cs ch b p s) = rafHigh s"
  "holdTimer (lockAndSpawn rnd cs ch b p s) = holdTimer s"
  by (simp_all add: lockAndSpawn_def Let_def spawnNext_eq randomPiece_def)

lemma lockAndSpawn_high:
  "high (lockAndSpawn rnd cs ch b p s)
     = (let n = snd (clearLines (merge b p));
            h1 = (if n \<noteq> 0 \<and> score s + n > ch then score s + n else high s)
        in if collides (fst (clearLines (merge b p))) (spawnNext rnd s) 0 0 None \<and> cs > ch
           then cs else h1)"
  by (simp add: lockAndSpawn_def Let_def)

lemma awardEffect_fields:
  "board (awardEffect s) = board s"
  "piece (awardEffect s) = piece s"
  "gameOver (awardEffect s) = gameOver s"
  "PIECE_SEQ (awardEffect s) = PIECE_SEQ s"
  "rafHigh (awardEffect s) = rafHigh s"
  "holdTimer (awardEffect s) = holdTimer s"
  "effectDep (awardEffect s) = Some (pid (piece s))"
  by (simp_all add: awardEffect_def Let_def)

lemma awardEffect_awardedRef:
  "awardedRef (awardEffect s)
     = (if effectDep s = Some (pid (piece s)) then awardedRef s else pid (piece s))"
  by (simp add: awardEffect_def Let_def)

lemma awardEffect_score:
  "score (awardEffect s)
     = (if effectDep s \<noteq> Some (pid (piece s)) \<and> pid (piece s) \<noteq> awardedRef s
           \<and> hasLightningInIcons (icons (piece s))
        then score s + 5 else score s)"
  by (simp add: awardEffect_def Let_def)

lemma awardEffect_high:
  "high (awardEffect s)
     = (if effectDep s \<noteq> Some (pid (piece s)) \<and> pid (piece s) \<noteq> awardedRef s
           \<and> hasLightningInIcons (icons (piece s)) \<and> score s + 5 > high s
        then score s + 5 else high s)"
  by (simp add: awardEffect_def Let_def)

lemma awardEffect_synced_id: "synced s \<Longrightarrow> awardEffect s = s"
  by (simp add: awardEffect_def synced_def)

lemma pieceOk_col [simp]: "pieceOk (p\<lparr>col := c\<rparr>) = pieceOk p"
  by (simp add: pieceOk_def)

lemma pieceOk_row: "pieceOk p \<Longrightarrow> 0 \<le> d \<Longrightarrow> pieceOk (p\<lparr>row := row p + d\<rparr>)"
  by (simp add: pieceOk_def)

lemma pieceOk_rotated:
  assumes "pieceOk p" "rotateMatrixCW (matrix p) = Some rm" "rotateIconsCW (icons p) = Some ri"
  shows "pieceOk (p\<lparr>matrix := rm, icons := ri, col := c\<rparr>)"
proof -
  let ?n = "length (matrix p)"
  have n: "0 < ?n" and rm0: "rectangular (matrix p) ?n ?n" and ri0: "rectangular (icons p) ?n ?n"
    and cells: "setCells (matrix p) = 4" and rw: "0 \<le> row p"
    using assms(1) by (simp_all add: pieceOk_def Let_def)
  have rm: "rectangular rm ?n ?n"
    using rotateCW_rect_dims [OF rm0 n] assms(2) by (simp add: rotateMatrixCW_def)
  have ri: "rectangular ri ?n ?n"
    using rotateCW_rect_dims [OF ri0 n] assms(3) by (simp add: rotateIconsCW_def)
  have "setCells rm = 4"
    using setCells_rotateCW [OF rm0 n] assms(2) cells by (simp add: rotateMatrixCW_def)
  moreover have "length rm = ?n"
    using rm by (simp add: rectangular_def)
  ultimately show ?thesis
    using rm ri n rw by (simp add: pieceOk_def Let_def)
qed

lemma rotate_defined:
  assumes "pieceOk p"
  shows "\<exists>rm ri. rotateMatrixCW (matrix p) = Some rm \<and> rotateIconsCW (icons p) = Some ri"
proof -
  let ?n = "length (matrix p)"
  have n: "0 < ?n" and rm0: "rectangular (matrix p) ?n ?n" and ri0: "rectangular (icons p) ?n ?n"
    using assms(1) by (simp_all add: pieceOk_def Let_def)
  show ?thesis
    using rotateCW_rect [OF rm0 n, of 0] rotateCW_rect [OF ri0 n, of None]
    by (simp add: rotateMatrixCW_def rotateIconsCW_def)
qed

lemma find_SomeD: "find P xs = Some x \<Longrightarrow> P x \<and> x \<in> set xs"
  by (induction xs) (auto split: if_splits)

lemma kickLoop_find:
  "kickLoop b p rm ri ks s =
     (case find (\<lambda>k. \<not> collides b p 0 k (Some rm)) ks of
        None \<Rightarrow> s
      | Some k \<Rightarrow> s\<lparr>piece := (piece s)\<lparr>matrix := rm, icons := ri, col := col (piece s) + k\<rparr>\<rparr>)"
  by (induction ks) simp_all

lemma wellFormed_lockAndSpawn:
  assumes "wellFormed s" "rafHigh s \<le> ch"
  shows "wellFormed (lockAndSpawn rnd cs ch (board s) p s)"
proof -
  let ?cl = "clearLines (merge (board s) p)"
  have rect: "rectangular (merge (board s) p) ROWS COLS"
    using assms(1) by (simp add: wellFormed_def merge_rectangular)
  have b: "rectangular (fst ?cl) ROWS COLS"
    by (rule clearLines_rectangular [OF rect])
  have n: "0 \<le> snd ?cl"
    using rect by (intro clearLines_cleared_nonneg) (simp add: rectangular_def)
  have nx: "pieceOk (spawnNext rnd s)"
    by (simp add: spawnNext_eq shape_ok)
  have nid: "pid (spawnNext rnd s) = PIECE_SEQ s + 1"
    by (simp add: spawnNext_eq randomPiece_def Let_def)
  show ?thesis
    using assms b n nx nid
    by (auto simp: wellFormed_def lockAndSpawn_fields lockAndSpawn_high Let_def split: option.splits)
qed

lemma wellFormed_moveLeft: "wellFormed s \<Longrightarrow> wellFormed (moveLeft s)"
  using collides_col_shift [of "board s" "piece s" "- 1" 0 0 None]
  by (auto simp: wellFormed_def moveLeft_def split: option.splits)

lemma wellFormed_moveRight: "wellFormed s \<Longrightarrow> wellFormed (moveRight s)"
  using collides_col_shift [of "board s" "piece s" 1 0 0 None]
  by (auto simp: wellFormed_def moveRight_def split: option.splits)

lemma wellFormed_softDropStep:
  assumes "wellFormed s" "rafHigh s \<le> ch"
  shows "wellFormed (softDropStep rnd cs ch s)"
proof (cases "collides (board s) (piece s) 1 0 None")
  case True
  then show ?thesis
    using wellFormed_lockAndSpawn [OF assms] by (simp add: softDropStep_def Let_def)
next
  case False
  then show ?thesis
    using assms(1) collides_row_shift [of "board s" "piece s" 1 0 0 None]
      pieceOk_row [of "piece s" 1]
    by (auto simp: wellFormed_def softDropStep_def Let_def split: option.splits)
qed

lemma wellFormed_rotateAction:
  assumes "wellFormed s"
  shows "wellFormed (rotateAction s)"
proof (cases "key (piece s) = KO")
  case True
  then show ?thesis using assms by (simp add: rotateAction_def Let_def)
next
  case False
  have ok: "pieceOk (piece s)" using assms by (simp add: wellFormed_def)
  from rotate_defined [OF ok] obtain rm ri where
    r: "rotateMatrixCW (matrix (piece s)) = Some rm" "rotateIconsCW (icons (piece s)) = Some ri"
    by blast
  show ?thesis
  proof (cases "find (\<lambda>k. \<not> collides (board s) (piece s) 0 k (Some rm)) [0, 1, - 1, 2, - 2]")
    case None
    then show ?thesis
      using assms False r by (simp add: rotateAction_def Let_def kickLoop_find)
  next
    case (Some k)
    from find_SomeD [OF Some] have free: "\<not> collides (board s) (piece s) 0 k (Some rm)"
      by blast
    have "rotateAction s = s\<lparr>piece := (piece s)\<lparr>matrix := rm, icons := ri, col := col (piece s) + k\<rparr>\<rparr>"
      using False r Some by (simp add: rotateAction_def Let_def kickLoop_find)
    then show ?thesis
      using assms free pieceOk_rotated [OF ok r] collides_rotated [where b = "board s" and p = "piece s" and m = rm and ic = ri and k = k]
      by (auto simp: wellFormed_def split: option.splits)
  qed
qed

lemma wellFormed_hardDrop:
  assumes "wellFormed s" "rafHigh s \<le> ch"
  shows "\<exists>s'. hardDrop rnd cs ch s = Some s' \<and> wellFormed s'"
proof -
  have ok: "pieceOk (piece s)" using assms by (simp add: wellFormed_def)
  from dropLoop_terminates [OF ok, of "board s"] obtain d where
    d: "dropLoop (board s) (piece s) 0 = Some d" by blast
  show ?thesis
    using d wellFormed_lockAndSpawn [OF assms] by (simp add: hardDrop_def Let_def)
qed

lemma wellFormed_act:
  assumes "wellFormed s" "rafHigh s \<le> ch"
  shows "\<exists>s'. act rnd cs ch i s = Some s' \<and> wellFormed s'"
  using assms wellFormed_moveLeft wellFormed_moveRight wellFormed_softDropStep
    wellFormed_rotateAction wellFormed_hardDrop [OF assms]
  by (cases i) (simp_all add: act_def)

lemma wellFormed_resetGame: "wellFormed s \<Longrightarrow> wellFormed (resetGame rnd s)"
  using spawn_free [of "PIECE_SEQ s" rnd] shape_ok [of "PIECE_SEQ s" rnd]
  by (auto simp: wellFormed_def resetGame_def Let_def emptyBoard_def rectangular_def list_all_iff
        randomPiece_def split: option.splits)

lemma wellFormed_handle:
  assumes "wellFormed s"
  shows "\<exists>h. handle rnd ev s = Some h \<and> wellFormed h"
proof (cases ev)
  case KeyR
  then show ?thesis using assms by (simp add: handle_def wellFormed_resetGame)
next
  case (Input i)
  have "rafHigh s \<le> high s" using assms by (simp add: wellFormed_def)
  from wellFormed_act [OF assms this] show ?thesis
    using Input assms by (simp add: handle_def)
next
  case (Button b)
  have "rafHigh s \<le> high s" using assms by (simp add: wellFormed_def)
  from wellFormed_act [OF assms this] show ?thesis
    using Button by (simp add: handle_def)
next
  case HoldStart
  then show ?thesis
    using assms by (auto simp: handle_def wellFormed_def split: option.splits)
next
  case HoldEnd
  then show ?thesis
    using assms by (auto simp: handle_def wellFormed_def split: option.splits)
next
  case HoldTick
  show ?thesis
  proof (cases "holdTimer s")
    case None
    then show ?thesis using HoldTick assms by (simp add: handle_def)
  next
    case (Some t)
    then have "rafHigh s \<le> snd t" using assms by (simp add: wellFormed_def)
    from wellFormed_softDropStep [OF assms this] show ?thesis
      using HoldTick Some assms by (simp add: handle_def)
  qed
next
  case Frame
  from wellFormed_softDropStep [OF assms order_refl] show ?thesis
    using Frame assms by (simp add: handle_def)
next
  case Render
  then show ?thesis
    using assms by (auto simp: handle_def wellFormed_def split: option.splits)
qed

lemma wellFormed_awardEffect: "wellFormed s \<Longrightarrow> wellFormed (awardEffect s)"
  by (auto simp: wellFormed_def awardEffect_fields awardEffect_score awardEffect_high
        split: option.splits)

lemma quiet_refl [simp]: "quiet s s"
  by (simp add: quiet_def)

lemma quiet_moveLeft: "quiet s (moveLeft s)"
  by (simp add: quiet_def moveLeft_def)

lemma quiet_moveRight: "quiet s (moveRight s)"
  by (simp add: quiet_def moveRight_def)

lemma quiet_rotateAction: "quiet s (rotateAction s)"
  by (simp add: quiet_def rotateAction_def Let_def kickLoop_find split: option.splits)

lemma softDropStep_cases:
  "quiet s (softDropStep rnd cs ch s)
   \<or> (collides (board s) (piece s) 1 0 None
      \<and> softDropStep rnd cs ch s = lockAndSpawn rnd cs ch (board s) (piece s) s)"
  by (simp add: quiet_def softDropStep_def Let_def)

lemma act_cases:
  assumes "act rnd cs ch i s = Some h"
  shows "quiet s h \<or> (\<exists>p. h = lockAndSpawn rnd cs ch (board s) p s)"
proof (cases i)
  case MoveLeft
  with assms show ?thesis by (auto simp: act_def quiet_moveLeft)
next
  case MoveRight
  with assms show ?thesis by (auto simp: act_def quiet_moveRight)
next
  case SoftDropStep
  with assms softDropStep_cases [of s rnd cs ch] show ?thesis by (auto simp: act_def)
next
  case RotateAction
  with assms show ?thesis by (auto simp: act_def quiet_rotateAction)
next
  case HardDrop
  with assms show ?thesis by (auto simp: act_def hardDrop_def Let_def split: option.splits)
qed

text \<open>Every event either restarts the game, leaves everything but the geometry of the
  active piece (and the counter) as it is, or is one call of \<open>lockAndSpawn\<close> on the
  current board.\<close>

lemma handle_cases:
  assumes "handle rnd ev s = Some h"
  shows "(ev = KeyR \<and> h = resetGame rnd s)
         \<or> quiet s h
         \<or> (\<exists>cs ch p. h = lockAndSpawn rnd cs ch (board s) p s
               \<and> (\<not> gameOver s \<or> (\<exists>b. ev = Button b)))"
proof (cases ev)
  case KeyR
  with assms show ?thesis by (simp add: handle_def)
next
  case (Input i)
  show ?thesis
  proof (cases "gameOver s")
    case True
    with assms Input show ?thesis by (simp add: handle_def)
  next
    case False
    with assms Input have "act rnd (score s) (high s) i s = Some h" by (simp add: handle_def)
    from act_cases [OF this] False show ?thesis by blast
  qed
next
  case (Button b)
  with assms have "act rnd (score s) (high s) (buttonIntent b) s = Some h" by (simp add: handle_def)
  from act_cases [OF this] Button show ?thesis by blast
next
  case HoldStart
  with assms show ?thesis by (auto simp: handle_def quiet_def split: option.splits)
next
  case HoldEnd
  with assms show ?thesis by (auto simp: handle_def quiet_def split: option.splits)
next
  case HoldTick
  show ?thesis
  proof (cases "holdTimer s = None \<or> gameOver s")
    case True
    with assms HoldTick show ?thesis by (auto simp: handle_def split: option.splits)
  next
    case False
    then obtain t where t: "holdTimer s = Some t" "\<not> gameOver s" by auto
    with assms HoldTick have "h = softDropStep rnd (fst t) (snd t) s" by (simp add: handle_def)
    with softDropStep_cases [of s rnd "fst t" "snd t"] t(2) show ?thesis by metis
  qed
next
  case Frame
  show ?thesis
  proof (cases "gameOver s")
    case True
    with assms Frame show ?thesis by (simp add: handle_def)
  next
    case False
    with assms Frame have "h = softDropStep rnd 0 (rafHigh s) s" by (simp add: handle_def)
    with softDropStep_cases [of s rnd 0 "rafHigh s"] False show ?thesis by metis
  qed
next
  case Render
  with assms show ?thesis by (auto simp: handle_def quiet_def)
qed

lemma synced_step:
  assumes "wellFormed s" "synced s" "handle rnd ev s = Some h"
  shows "synced (awardEffect h)"
proof -
  have le: "pid (piece s) \<le> PIECE_SEQ s" using assms(1) by (simp add: wellFormed_def)
  have "effectDep h = Some (pid (piece h)) \<longrightarrow> awardedRef h = pid (piece h)"
    using handle_cases [OF assms(3)] assms(2) le
    by (auto simp: synced_def quiet_def lockAndSpawn_fields resetGame_def randomPiece_def Let_def
          spawnNext_eq)
  then show ?thesis
    by (simp add: synced_def awardEffect_fields awardEffect_awardedRef)
qed

lemma wellFormed_init: "0 \<le> seq0 \<Longrightarrow> wellFormed (init seq0 loaded rnd)"
  unfolding init_def
  using spawn_free [of seq0 rnd] shape_ok [of seq0 rnd]
  by (intro wellFormed_awardEffect)
     (auto simp: wellFormed_def emptyBoard_def rectangular_def list_all_iff randomPiece_def Let_def)

lemma synced_init: "synced (init seq0 loaded rnd)"
  by (simp add: init_def synced_def awardEffect_fields awardEffect_awardedRef)

lemma reachable_wellFormed: "reachable s \<Longrightarrow> wellFormed s \<and> synced s"
proof (induction rule: reachable.induct)
  case (reach_init seq0 w item rnd)
  then show ?case
    by (simp add: wellFormed_init synced_init)
next
  case (reach_step s rnd ev s')
  from wellFormed_handle [of s rnd ev] reach_step.IH obtain h where
    h: "handle rnd ev s = Some h" "wellFormed h" by blast
  with reach_step.hyps(2) have "s' = awardEffect h"
    by (simp add: step_def)
  moreover have "synced (awardEffect h)"
    using reach_step.IH h(1) by (intro synced_step [of s]) simp_all
  ultimately show ?case
    using h(2) by (simp add: wellFormed_awardEffect)
qed

section \<open>Runs\<close>

lemma reachable_run: "reachable s \<Longrightarrow> run es s = Some s' \<Longrightarrow> reachable s'"
proof (induction es arbitrary: s)
  case Nil
  then show ?case by simp
next
  case (Cons e es)
  obtain rnd ev where e: "e = (rnd, ev)" by (cases e)
  from Cons.prems(2) e obtain t where t: "step rnd ev s = Some t" "run es t = Some s'"
    by (auto split: option.splits)
  from reachable.reach_step [OF Cons.prems(1) t(1)] Cons.IH t(2) show ?case by blast
qed

lemma reachable_the_run:
  assumes "reachable s" "run es s \<noteq> None"
  shows "reachable (the (run es s))"
  using assms reachable_run [of s es "the (run es s)"] by auto




lemma shape_cells: "setCells (shapeMatrix k) = 4"
  by (cases k) (simp_all add: setCells_def)



lemma status_transitions:
  assumes "step rnd ev s = Some s'"
  shows "(gameOver s \<and> \<not> gameOver s' \<longrightarrow> ev = KeyR)
       \<and> (\<not> gameOver s \<and> gameOver s' \<longrightarrow>
            (\<exists>cs ch p. handle rnd ev s = Some (lockAndSpawn rnd cs ch (board s) p s)
               \<and> collides (fst (clearLines (merge (board s) p))) (spawnNext rnd s) 0 0 None
               \<and> board s' = fst (clearLines (merge (board s) p))
               \<and> piece s' = piece s))"
proof -
  from assms obtain h where h: "handle rnd ev s = Some h" "s' = awardEffect h"
    by (auto simp: step_def)
  have same: "gameOver s' = gameOver h" "board s' = board h" "piece s' = piece h"
    using h(2) by (simp_all add: awardEffect_fields)
  from handle_cases [OF h(1)] consider
      (reset) "ev = KeyR" "h = resetGame rnd s"
    | (quiet) "quiet s h"
    | (lock) cs ch p where "h = lockAndSpawn rnd cs ch (board s) p s"
    by blast
  then show ?thesis
  proof cases
    case reset
    then show ?thesis using same by (simp add: resetGame_def Let_def)
  next
    case quiet
    then show ?thesis using same by (simp add: quiet_def)
  next
    case lock
    then have "gameOver s' = (gameOver s \<or> collides (fst (clearLines (merge (board s) p))) (spawnNext rnd s) 0 0 None)"
      and "board s' = fst (clearLines (merge (board s) p))"
      and "collides (fst (clearLines (merge (board s) p))) (spawnNext rnd s) 0 0 None \<longrightarrow> piece s' = piece s"
      using same by (simp_all add: lockAndSpawn_fields)
    then show ?thesis using h(1) lock by blast
  qed
qed

lemma lockAndSpawn_fresh_best:
  assumes "score s \<le> high s" "0 \<le> snd (clearLines (merge b p))"
  shows "score (lockAndSpawn rnd (score s) (high s) b p s) = score s + snd (clearLines (merge b p))
       \<and> high (lockAndSpawn rnd (score s) (high s) b p s)
           = max (high s) (score s + snd (clearLines (merge b p)))"
  using assms by (auto simp: lockAndSpawn_fields lockAndSpawn_high Let_def)

section \<open>The active piece\<close>



text \<open>
  C2. \<^verbatim>\<open>rotateAction\<close> leaves the state as it is when the active piece is the square one.
  For every other piece of a reachable state both rotations succeed, and the action
  takes the first of the column offsets 0, 1, -1, 2, -2 at which the rotated bitmask
  does not collide, setting matrix, icons and column together; when all five collide the
  state is unchanged.
\<close>

theorem rotateAction_wall_kick:
  assumes "reachable s"
  shows "(key (piece s) = KO \<longrightarrow> rotateAction s = s)
       \<and> (key (piece s) \<noteq> KO \<longrightarrow>
           (\<exists>rm ri. rotateMatrixCW (matrix (piece s)) = Some rm
                 \<and> rotateIconsCW (icons (piece s)) = Some ri
                 \<and> rotateAction s =
                     (case find (\<lambda>k. \<not> collides (board s) (piece s) 0 k (Some rm)) [0, 1, - 1, 2, - 2] of
                        None \<Rightarrow> s
                      | Some k \<Rightarrow>
                          s\<lparr>piece := (piece s)\<lparr>matrix := rm, icons := ri, col := col (piece s) + k\<rparr>\<rparr>)))"
proof -
  have ok: "pieceOk (piece s)"
    using reachable_wellFormed [OF assms] by (simp add: wellFormed_def)
  from rotate_defined [OF ok] obtain rm ri where
    r: "rotateMatrixCW (matrix (piece s)) = Some rm" "rotateIconsCW (icons (piece s)) = Some ri"
    by blast
  have ko: "rotateAction s = s" if "key (piece s) = KO"
    by (simp only: rotateAction_def Let_def that if_P)
  have kick: "rotateAction s =
      (case find (\<lambda>k. \<not> collides (board s) (piece s) 0 k (Some rm)) [0, 1, - 1, 2, - 2] of
         None \<Rightarrow> s
       | Some k \<Rightarrow> s\<lparr>piece := (piece s)\<lparr>matrix := rm, icons := ri, col := col (piece s) + k\<rparr>\<rparr>)"
    if "key (piece s) \<noteq> KO"
    by (simp only: rotateAction_def Let_def kickLoop_find r option.case that if_False)
  show ?thesis
    using ko kick r by blast
qed

theorem rotateAction_wall_kick_witness:
  "key (piece kickState) \<noteq> KO
   \<and> col (piece kickState) = - 2
   \<and> find (\<lambda>k. \<not> collides (board kickState) (piece kickState) 0 k
                    (rotateMatrixCW (matrix (piece kickState)))) [0, 1, - 1, 2, - 2] = Some 2
   \<and> rotateMatrixCW (matrix (piece kickState)) = Some (matrix (piece (rotateAction kickState)))
   \<and> rotateIconsCW (icons (piece kickState)) = Some (icons (piece (rotateAction kickState)))
   \<and> col (piece (rotateAction kickState)) = 0"
proof -
  have "run kickRun (init 0 (loadHigh True None) (plain KI)) \<noteq> None"
    by code_simp
  then have r: "reachable kickState"
    unfolding kickState_def by (intro reachable_the_run reachable.reach_init) simp_all
  have k: "key (piece kickState) \<noteq> KO"
    by code_simp
  have c: "col (piece kickState) = - 2"
    by code_simp
  have f: "find (\<lambda>k. \<not> collides (board kickState) (piece kickState) 0 k
                    (rotateMatrixCW (matrix (piece kickState)))) [0, 1, - 1, 2, - 2] = Some 2"
    by code_simp
  from rotateAction_wall_kick [OF r] k obtain rm ri where
    rm: "rotateMatrixCW (matrix (piece kickState)) = Some rm"
    and ri: "rotateIconsCW (icons (piece kickState)) = Some ri"
    and act: "rotateAction kickState =
       (case find (\<lambda>k. \<not> collides (board kickState) (piece kickState) 0 k (Some rm)) [0, 1, - 1, 2, - 2] of
          None \<Rightarrow> kickState
        | Some k \<Rightarrow>
            kickState\<lparr>piece := (piece kickState)\<lparr>matrix := rm, icons := ri,
                                                    col := col (piece kickState) + k\<rparr>\<rparr>)"
    by blast
  have "find (\<lambda>k. \<not> collides (board kickState) (piece kickState) 0 k (Some rm)) [0, 1, - 1, 2, - 2] = Some 2"
    using f unfolding rm .
  with act have "rotateAction kickState =
      kickState\<lparr>piece := (piece kickState)\<lparr>matrix := rm, icons := ri, col := col (piece kickState) + 2\<rparr>\<rparr>"
    by (simp only: option.case)
  then show ?thesis
    using k c f rm ri by simp
qed

section \<open>Hard drop\<close>

text \<open>
  C5, as the claim states it, fails: the offset \<open>d\<close> at which the piece is free while it
  collides one row further down need not be unique, and the one \<^verbatim>\<open>hardDrop\<close> takes need
  not be the lowest. In \<open>caveState\<close>, a state the game reaches, the square piece is free
  and blocked below both at offset 13 (on top of the flat piece) and at offset 18 (on the
  floor of the cave under it); the loop returns 13.
\<close>

theorem hardDrop_rest_not_unique:
  "run caveRun (init 0 (loadHigh True None) (plain KI)) = Some caveState
   \<and> \<not> gameOver caveState
   \<and> \<not> collides (board caveState) (piece caveState) 0 0 None
   \<and> \<not> collides (board caveState) (piece caveState) 13 0 None
   \<and> collides (board caveState) (piece caveState) 14 0 None
   \<and> \<not> collides (board caveState) (piece caveState) 18 0 None
   \<and> collides (board caveState) (piece caveState) 19 0 None
   \<and> dropLoop (board caveState) (piece caveState) 0 = Some 13"
proof -
  have "let s = caveState in
          \<not> gameOver s
          \<and> \<not> collides (board s) (piece s) 0 0 None
          \<and> \<not> collides (board s) (piece s) 13 0 None
          \<and> collides (board s) (piece s) 14 0 None
          \<and> \<not> collides (board s) (piece s) 18 0 None
          \<and> collides (board s) (piece s) 19 0 None
          \<and> dropLoop (board s) (piece s) 0 = Some 13"
    by code_simp
  moreover have "run caveRun (init 0 (loadHigh True None) (plain KI)) \<noteq> None"
    by code_simp
  ultimately show ?thesis
    unfolding Let_def caveState_def by simp
qed

text \<open>
  C5, amended. In every reachable running state the loop of \<^verbatim>\<open>hardDrop\<close> ends with the
  least offset \<open>d\<close> such that the piece collides at \<open>d + 1\<close>; the piece is free at every
  offset from 0 to \<open>d\<close>, and \<^verbatim>\<open>hardDrop\<close> then calls \<^verbatim>\<open>lockAndSpawn\<close> with the piece at
  \<open>row + d\<close>, where it cannot fall further.
\<close>

theorem hardDrop_first_rest:
  assumes "reachable s" "\<not> gameOver s"
  shows "\<exists>d. dropLoop (board s) (piece s) 0 = Some d
           \<and> (\<forall>e\<le>d. \<not> collides (board s) (piece s) (int e) 0 None)
           \<and> collides (board s) (piece s) (int d + 1) 0 None
           \<and> (\<forall>d'. collides (board s) (piece s) (int d' + 1) 0 None \<longrightarrow> d \<le> d')
           \<and> hardDrop rnd cs ch s
               = Some (lockAndSpawn rnd cs ch (board s) ((piece s)\<lparr>row := row (piece s) + int d\<rparr>) s)"
proof -
  have wf: "wellFormed s"
    using reachable_wellFormed [OF assms(1)] by simp
  then have ok: "pieceOk (piece s)" and free: "\<not> collides (board s) (piece s) 0 0 None"
    using assms(2) by (simp_all add: wellFormed_def)
  from dropLoop_terminates [OF ok, of "board s"] obtain d where
    d: "dropLoop (board s) (piece s) 0 = Some d" by blast
  from dropLoop_result [OF d] have
    hit: "collides (board s) (piece s) (int d + 1) 0 None"
    and air: "\<forall>e. 0 < e \<and> e \<le> d \<longrightarrow> \<not> collides (board s) (piece s) (int e) 0 None"
    by simp_all
  have all: "\<not> collides (board s) (piece s) (int e) 0 None" if "e \<le> d" for e
    using that air free by (cases "e = 0") simp_all
  have least: "d \<le> d'" if "collides (board s) (piece s) (int d' + 1) 0 None" for d'
  proof (rule ccontr)
    assume "\<not> d \<le> d'"
    then have "d' + 1 \<le> d" by simp
    from all [OF this] that show False by (simp add: add.commute)
  qed
  show ?thesis
    using d all hit least by (auto simp: hardDrop_def Let_def)
qed

theorem hardDrop_first_rest_witness:
  "\<not> gameOver caveState
   \<and> dropLoop (board caveState) (piece caveState) 0 = Some 13
   \<and> \<not> collides (board caveState) (piece caveState) 13 0 None
   \<and> collides (board caveState) (piece caveState) 14 0 None
   \<and> hardDrop (plain KT) 0 0 caveState
       = Some (lockAndSpawn (plain KT) 0 0 (board caveState)
                 ((piece caveState)\<lparr>row := row (piece caveState) + 13\<rparr>) caveState)"
proof -
  have "run caveRun (init 0 (loadHigh True None) (plain KI)) \<noteq> None"
    by code_simp
  then have r: "reachable caveState"
    unfolding caveState_def by (intro reachable_the_run reachable.reach_init) simp_all
  have "let s = caveState in \<not> gameOver s \<and> dropLoop (board s) (piece s) 0 = Some 13"
    by code_simp
  then have g: "\<not> gameOver caveState"
    and d13: "dropLoop (board caveState) (piece caveState) 0 = Some 13"
    unfolding Let_def by simp_all
  from hardDrop_first_rest [OF r g, of "plain KT" 0 0] obtain d where
    d: "dropLoop (board caveState) (piece caveState) 0 = Some d"
    and air: "\<forall>e\<le>d. \<not> collides (board caveState) (piece caveState) (int e) 0 None"
    and hit: "collides (board caveState) (piece caveState) (int d + 1) 0 None"
    and hd: "hardDrop (plain KT) 0 0 caveState
       = Some (lockAndSpawn (plain KT) 0 0 (board caveState)
                 ((piece caveState)\<lparr>row := row (piece caveState) + int d\<rparr>) caveState)"
    by blast
  from d d13 have d': "d = 13" by simp
  from air d' have "\<not> collides (board caveState) (piece caveState) (int 13) 0 None"
    by blast
  with hit hd g d13 d' show ?thesis by simp
qed

text \<open>
  C10. Each of the seven shapes has four set cells, a clockwise rotation of a
  rectangular bitmask keeps the number of set cells, and so the bitmask of the active
  piece of every reachable state has four set cells; the loop of \<^verbatim>\<open>hardDrop\<close> then ends,
  with an offset below the height of the board.
\<close>

theorem hardDrop_terminates:
  assumes "reachable s"
  shows "(\<forall>k. setCells (shapeMatrix k) = 4)
       \<and> (\<forall>m R C m1. rectangular m R C \<and> 0 < R \<and> rotateMatrixCW m = Some m1
             \<longrightarrow> setCells m1 = setCells m)
       \<and> setCells (matrix (piece s)) = 4
       \<and> (\<exists>d. dropLoop (board s) (piece s) 0 = Some d \<and> d < ROWS)"
proof -
  have ok: "pieceOk (piece s)"
    using reachable_wellFormed [OF assms] by (simp add: wellFormed_def)
  then have "setCells (matrix (piece s)) = 4"
    by (simp add: pieceOk_def)
  moreover have "\<forall>m R C m1. rectangular m R C \<and> 0 < R \<and> rotateMatrixCW m = Some m1
             \<longrightarrow> setCells m1 = setCells m"
    using setCells_rotateCW by (auto simp: rotateMatrixCW_def)
  ultimately show ?thesis
    using dropLoop_terminates [OF ok, of "board s"] shape_cells by blast
qed

theorem hardDrop_terminates_witness:
  "setCells (matrix (piece kickState)) = 4
   \<and> matrix (piece kickState) = [[0, 0, 1, 0], [0, 0, 1, 0], [0, 0, 1, 0], [0, 0, 1, 0]]
   \<and> dropLoop (board kickState) (piece kickState) 0 = Some 16"
proof -
  have "run kickRun (init 0 (loadHigh True None) (plain KI)) \<noteq> None"
    by code_simp
  then have r: "reachable kickState"
    unfolding kickState_def by (intro reachable_the_run reachable.reach_init) simp_all
  have "let s = kickState in
          matrix (piece s) = [[0, 0, 1, 0], [0, 0, 1, 0], [0, 0, 1, 0], [0, 0, 1, 0]]
          \<and> dropLoop (board s) (piece s) 0 = Some 16"
    by code_simp
  then have "matrix (piece kickState) = [[0, 0, 1, 0], [0, 0, 1, 0], [0, 0, 1, 0], [0, 0, 1, 0]]"
    and "dropLoop (board kickState) (piece kickState) 0 = Some 16"
    unfolding Let_def by blast+
  with hardDrop_terminates [OF r] show ?thesis
    by blast
qed

section \<open>The lightning award\<close>



section \<open>The best score\<close>




text \<open>
  The best score is not always the largest score reached. The frame loop calls the
  \<^verbatim>\<open>updateHighScore\<close> of the first render, which compares with the best loaded at the
  start: in \<open>lowerState\<close> (score 0, best 5, nothing stored at the start) the lock that
  completes a row sets the best to 1 when the frame loop performs it, and leaves it at 5
  when the down key performs it.
\<close>

lemma frame_loop_lowers_best:
  "score lowerState = 0 \<and> high lowerState = 5 \<and> \<not> gameOver lowerState
   \<and> map_option (\<lambda>s. (score s, high s)) (step (plain KI) Frame lowerState) = Some (1, 1)
   \<and> map_option (\<lambda>s. (score s, high s)) (step (plain KI) (Input SoftDropStep) lowerState) = Some (1, 5)"
proof -
  have "let s = lowerState in
          score s = 0 \<and> high s = 5 \<and> \<not> gameOver s
          \<and> map_option (\<lambda>s. (score s, high s)) (step (plain KI) Frame s) = Some (1, 1)
          \<and> map_option (\<lambda>s. (score s, high s)) (step (plain KI) (Input SoftDropStep) s) = Some (1, 5)"
    by code_simp
  then show ?thesis
    unfolding Let_def .
qed

text \<open>
  C7. A lock that clears \<open>n\<close> rows adds \<open>n\<close> to the score (\<open>lockAndSpawn_fields\<close>), and
  when its closure sees the current score and best, the best becomes the larger of the
  old best and the new score (\<open>lockAndSpawn_fresh_best\<close>). The interval of the hold
  button keeps the closure of the render in which the button was pressed: in
  \<open>staleState\<close> (score 1, best 1) its \<^verbatim>\<open>high\<close> is 5, the lock clears one row, the score
  becomes 2 and the best stays 1. The same lock done by the down key sets the best to 2.
\<close>

theorem hold_interval_misses_best:
  "run staleRun (init 0 (loadHigh True None) (bolt KO)) = Some staleState
   \<and> score staleState = 1 \<and> high staleState = 1 \<and> \<not> gameOver staleState
   \<and> holdTimer staleState = Some (0, 5)
   \<and> collides (board staleState) (piece staleState) 1 0 None
   \<and> snd (clearLines (merge (board staleState) (piece staleState))) = 1
   \<and> map_option (\<lambda>s. (score s, high s)) (step (plain KI) HoldTick staleState) = Some (2, 1)
   \<and> map_option (\<lambda>s. (score s, high s)) (step (plain KI) (Input SoftDropStep) staleState) = Some (2, 2)"
proof -
  have "let s = staleState in
          score s = 1 \<and> high s = 1 \<and> \<not> gameOver s
          \<and> holdTimer s = Some (0, 5)
          \<and> collides (board s) (piece s) 1 0 None
          \<and> snd (clearLines (merge (board s) (piece s))) = 1
          \<and> map_option (\<lambda>s. (score s, high s)) (step (plain KI) HoldTick s) = Some (2, 1)
          \<and> map_option (\<lambda>s. (score s, high s)) (step (plain KI) (Input SoftDropStep) s) = Some (2, 2)"
    by code_simp
  moreover have "run staleRun (init 0 (loadHigh True None) (bolt KO)) \<noteq> None"
    by code_simp
  ultimately show ?thesis
    unfolding Let_def staleState_def by simp
qed

text \<open>
  C6. The status changes from over to running only by the key r, and from running to
  over only in a call of \<^verbatim>\<open>lockAndSpawn\<close> whose spawned piece collides with the board
  after the clear; that board is kept and the active piece stays the old one
  (\<open>status_transitions\<close>). The update of the best score in that branch uses the \<^verbatim>\<open>score\<close>
  of the closure: in \<open>topOutState\<close> (score 2, best 1) the frame loop ends the game with
  \<^verbatim>\<open>updateHighScore(0)\<close> and the best stays 1, where the down key ends it with the best
  set to 2.
\<close>

theorem frame_loop_game_over_keeps_best:
  "run topOutRun (init 0 (loadHigh True None) (bolt KO)) = Some topOutState
   \<and> score topOutState = 2 \<and> high topOutState = 1 \<and> \<not> gameOver topOutState
   \<and> map_option (\<lambda>s. (gameOver s, score s, high s)) (step (plain KI) Frame topOutState)
       = Some (True, 2, 1)
   \<and> map_option (\<lambda>s. (gameOver s, score s, high s)) (step (plain KI) (Input SoftDropStep) topOutState)
       = Some (True, 2, 2)"
proof -
  have "let s = topOutState in
          score s = 2 \<and> high s = 1 \<and> \<not> gameOver s
          \<and> map_option (\<lambda>s. (gameOver s, score s, high s)) (step (plain KI) Frame s)
              = Some (True, 2, 1)
          \<and> map_option (\<lambda>s. (gameOver s, score s, high s)) (step (plain KI) (Input SoftDropStep) s)
              = Some (True, 2, 2)"
    by code_simp
  moreover have "run topOutRun (init 0 (loadHigh True None) (bolt KO)) \<noteq> None"
    by code_simp
  ultimately show ?thesis
    unfolding Let_def topOutState_def by simp
qed

end
